theory Spec2Isabelle
  imports Main
begin

section \<open>Python values, exceptions and the destination server\<close>

text \<open>
  The repository is a Python program that talks to a PostgreSQL server through psycopg2.
  Exceptions are values: a call that may raise returns \<open>exn + 'a\<close> with \<open>Inl\<close> the
  exception in flight.  \<open>Unsupported\<close> marks inputs of \<open>str.format\<close> that this
  development does not interpret (see \<open>py_format\<close>).
\<close>

datatype exn =
    OperationalError
  | DatabaseError
  | InterfaceError
  | KeyError string
  | IndexError
  | TypeError
  | ValueError
  | AttributeError
  | Unsupported

type_synonym 'a result = "exn + 'a"

text \<open>
  What is handed to \<open>cursor.execute\<close>: a plain string, a string with named
  \<open>%(name)s\<close> arguments, or a \<open>psycopg2.sql.SQL(...).format(...)\<close> composition whose
  fields are \<open>Identifier\<close>s and \<open>Literal\<close>s.
\<close>

datatype piece = Identifier string | Literal string

datatype stmt =
    Text string
  | TextArgs string "(string \<times> string) list"
  | Composed string "(string \<times> piece) list"

text \<open>A result row is a tuple of cells; the catalog queries of the code return text or booleans.\<close>

datatype cell = B bool | S string

text \<open>The keyword arguments of \<open>psycopg2.connect\<close>; \<open>ci_dbname\<close> is absent for a
  server-level connection.\<close>

record conninfo =
  ci_host :: string
  ci_dbname :: "string option"
  ci_port :: string
  ci_user :: string
  ci_password :: string

text \<open>
  The destination is a parameter: \<open>accepts\<close> says whether \<open>psycopg2.connect\<close> opens a
  connection in the current server state (it raises otherwise), and \<open>run\<close> is the effect
  of one command sent over a session with \<open>autocommit = True\<close>: \<open>None\<close> when the server
  rejects it (the call raises and the state is unchanged), otherwise the new state and
  the rows the cursor holds.  Every session of \<open>sql.py\<close> sets \<open>conn.autocommit = True\<close>
  before its first command, so \<open>rollback\<close> never has pending work to undo.
  On an open connection only \<open>execute\<close> can fail: \<open>conn.cursor()\<close>, \<open>cur.close()\<close>,
  \<open>conn.rollback()\<close>, \<open>conn.close()\<close> and setting \<open>autocommit\<close> succeed, and cursors and
  the \<open>autocommit\<close> flag are not recorded in the log.  Output with \<open>print\<close> and the
  progress bars of \<open>tqdm\<close> are left out.
\<close>

record 'db destination =
  accepts :: "'db \<Rightarrow> conninfo \<Rightarrow> bool"
  run :: "'db \<Rightarrow> conninfo \<Rightarrow> stmt \<Rightarrow> ('db \<times> cell list list) option"

datatype event =
    Connect nat conninfo
  | ConnectFailed conninfo
  | Execute nat stmt bool
  | Rollback nat
  | Close nat

text \<open>
  The world threaded through the program: the server state, the open connections (handle
  and parameters), a counter for handles, and the log of what the program did to the
  server.
\<close>

record 'db world =
  dbstate :: 'db
  live :: "(nat \<times> conninfo) list"
  fresh :: nat
  trace :: "event list"

definition new_handle :: "'db world \<Rightarrow> nat" where
  "new_handle w = fold max (map (\<lambda>p. Suc (fst p)) (live w)) (fresh w)"

definition psycopg2_connect :: "'db destination \<Rightarrow> conninfo \<Rightarrow> 'db world \<Rightarrow> nat result \<times> 'db world" where
  "psycopg2_connect D ci w =
     (if accepts D (dbstate w) ci
      then (Inr (new_handle w),
            w\<lparr>live := (new_handle w, ci) # live w,
              fresh := Suc (new_handle w),
              trace := trace w @ [Connect (new_handle w) ci]\<rparr>)
      else (Inl OperationalError, w\<lparr>trace := trace w @ [ConnectFailed ci]\<rparr>))"

definition conn_close :: "nat \<Rightarrow> 'db world \<Rightarrow> 'db world" where
  "conn_close h w = w\<lparr>live := filter (\<lambda>p. fst p \<noteq> h) (live w), trace := trace w @ [Close h]\<rparr>"

definition cur_execute :: "'db destination \<Rightarrow> nat \<Rightarrow> stmt \<Rightarrow> 'db world \<Rightarrow> (cell list list) result \<times> 'db world" where
  "cur_execute D h q w =
     (case map_of (live w) h of
        None \<Rightarrow> (Inl InterfaceError, w)
      | Some ci \<Rightarrow>
          (case run D (dbstate w) ci q of
             None \<Rightarrow> (Inl DatabaseError, w\<lparr>trace := trace w @ [Execute h q False]\<rparr>)
           | Some (d', rows) \<Rightarrow> (Inr rows, w\<lparr>dbstate := d', trace := trace w @ [Execute h q True]\<rparr>)))"

definition conn_rollback :: "nat \<Rightarrow> 'db world \<Rightarrow> unit result \<times> 'db world" where
  "conn_rollback h w =
     (case map_of (live w) h of
        None \<Rightarrow> (Inl InterfaceError, w)
      | Some ci \<Rightarrow> (Inr (), w\<lparr>trace := trace w @ [Rollback h]\<rparr>))"

text \<open>\<open>cur.fetchone()[0]\<close>: \<open>fetchone\<close> gives \<open>None\<close> on an empty result, and indexing
  \<open>None\<close> or an empty tuple raises.\<close>

definition fetchone_0 :: "cell list list \<Rightarrow> cell result" where
  "fetchone_0 rows =
     (case rows of
        [] \<Rightarrow> Inl TypeError
      | r # _ \<Rightarrow> (case r of [] \<Rightarrow> Inl IndexError | c # _ \<Rightarrow> Inr c))"

fun truthy :: "cell \<Rightarrow> bool" where
  "truthy (B b) = b"
| "truthy (S s) = (s \<noteq> [])"

section \<open>db_connection.py\<close>

record DatabaseConnection =
  dc_conn :: "nat option"
  dc_database :: "string option"
  dc_user :: string
  dc_password :: string
  dc_host :: string
  dc_port :: string

definition DatabaseConnection_init ::
  "string \<Rightarrow> string option \<Rightarrow> string \<Rightarrow> string \<Rightarrow> string \<Rightarrow> DatabaseConnection" where
  "DatabaseConnection_init host database port user password =
     \<lparr>dc_conn = None, dc_database = database, dc_user = user, dc_password = password,
      dc_host = host, dc_port = port\<rparr>"

definition connect_db :: "DatabaseConnection \<Rightarrow> conninfo" where
  "connect_db self =
     \<lparr>ci_host = dc_host self, ci_dbname = dc_database self, ci_port = dc_port self,
      ci_user = dc_user self, ci_password = dc_password self\<rparr>"

definition connect_db_server :: "DatabaseConnection \<Rightarrow> conninfo" where
  "connect_db_server self =
     \<lparr>ci_host = dc_host self, ci_dbname = None, ci_port = dc_port self,
      ci_user = dc_user self, ci_password = dc_password self\<rparr>"

definition DatabaseConnection_enter ::
  "'db destination \<Rightarrow> DatabaseConnection \<Rightarrow> 'db world \<Rightarrow> (nat \<times> DatabaseConnection) result \<times> 'db world" where
  "DatabaseConnection_enter D self w =
     (case psycopg2_connect D
             (if dc_database self = None then connect_db_server self else connect_db self) w of
        (Inl e, w') \<Rightarrow> (Inl e, w')
      | (Inr h, w') \<Rightarrow> (Inr (h, self\<lparr>dc_conn := Some h\<rparr>), w'))"

text \<open>
  \<open>__exit__\<close> ignores its three arguments, closes \<open>self.conn\<close>, stores \<open>None\<close> and falls
  off the end, so it returns \<open>None\<close>; the first component of the result is the truth
  value of what it returns.  \<open>self.conn.close()\<close> on a stored \<open>None\<close> raises.
\<close>

definition DatabaseConnection_exit ::
  "DatabaseConnection \<Rightarrow> 'db world \<Rightarrow> (bool \<times> DatabaseConnection) result \<times> 'db world" where
  "DatabaseConnection_exit self w =
     (case dc_conn self of
        None \<Rightarrow> (Inl AttributeError, w)
      | Some h \<Rightarrow> (Inr (False, self\<lparr>dc_conn := None\<rparr>), conn_close h w))"

text \<open>
  The statement \<open>with DatabaseConnection(...) as conn: body\<close>.  If \<open>__enter__\<close> raises,
  neither the body nor \<open>__exit__\<close> runs.  Otherwise the body runs and leaves the values of
  the local variables it assigns together with the exception in flight, if any; \<open>__exit__\<close> then runs however the body ended.  An exception of the
  body is dropped exactly when \<open>__exit__\<close> returns a true value, and execution then goes on
  after the statement; an exception raised by \<open>__exit__\<close> itself replaces the one in
  flight.
\<close>

definition with_connection ::
  "'db destination \<Rightarrow> DatabaseConnection \<Rightarrow> (nat \<Rightarrow> 'db world \<Rightarrow> ('l \<times> exn option) \<times> 'db world)
     \<Rightarrow> 'db world \<Rightarrow> 'l result \<times> 'db world" where
  "with_connection D obj body w =
     (case DatabaseConnection_enter D obj w of
        (Inl e, w1) \<Rightarrow> (Inl e, w1)
      | (Inr (h, obj1), w1) \<Rightarrow>
          (case body h w1 of
             ((locals, raised), w2) \<Rightarrow>
               (case DatabaseConnection_exit obj1 w2 of
                  (Inl e', w3) \<Rightarrow> (Inl e', w3)
                | (Inr (suppress, obj2), w3) \<Rightarrow>
                    (case raised of
                       None \<Rightarrow> (Inr locals, w3)
                     | Some e \<Rightarrow> (if suppress then (Inr locals, w3) else (Inl e, w3))))))"

section \<open>Strings\<close>

definition nl :: char where "nl = CHR 0x0A"
definition tab :: char where "tab = CHR 0x09"
definition sq :: char where "sq = CHR 0x27"

text \<open>\<open>sep.join(xs)\<close>.\<close>

fun py_join :: "string \<Rightarrow> string list \<Rightarrow> string" where
  "py_join sep [] = []"
| "py_join sep [x] = x"
| "py_join sep (x # y # ys) = x @ sep @ py_join sep (y # ys)"

text \<open>
  \<open>str.upper\<close> and \<open>str.lower\<close> on ASCII text: a \<open>char\<close> is a byte here, and only the
  letters a-z and A-Z change.  Python's case mappings beyond ASCII are not modelled, so
  statements about them assume ASCII names.
\<close>

definition is_ascii :: "char \<Rightarrow> bool" where
  "is_ascii c = ((of_char c :: nat) < 128)"

definition char_upper :: "char \<Rightarrow> char" where
  "char_upper c = (let n = (of_char c :: nat) in if 97 \<le> n \<and> n \<le> 122 then char_of (n - 32) else c)"

definition char_lower :: "char \<Rightarrow> char" where
  "char_lower c = (let n = (of_char c :: nat) in if 65 \<le> n \<and> n \<le> 90 then char_of (n + 32) else c)"

definition str_upper :: "string \<Rightarrow> string" where
  "str_upper s = map char_upper s"

definition str_lower :: "string \<Rightarrow> string" where
  "str_lower s = map char_lower s"

text \<open>\<open>s.replace("'", "")\<close>.\<close>

definition strip_quotes :: "string \<Rightarrow> string" where
  "strip_quotes s = filter (\<lambda>c. c \<noteq> sq) s"

subsection \<open>\<open>template.format(**kwargs)\<close>\<close>

text \<open>
  The scanner of \<open>str.format\<close> for keyword arguments that are strings.  Outside a
  replacement field \<open>{{\<close> and \<open>}}\<close> stand for one brace, a lone \<open>}\<close> is a
  \<open>ValueError\<close>, and \<open>{\<close> opens a field, which runs to the next \<open>}\<close>; a field that
  is not closed is a \<open>ValueError\<close>.  The second argument is \<open>None\<close> outside a field and
  the name read so far inside one.  An empty name or a name of digits refers to a
  positional argument, and there is none (\<open>IndexError\<close>); any other name is looked up in
  the keyword arguments (\<open>KeyError\<close>).  The inserted text is not scanned again.  Names
  with attribute or index access, a conversion, a format specification or a nested brace
  (one of the characters \<open>. [ ] ! : {\<close>) are not interpreted: \<open>Unsupported\<close>.
\<close>

definition field_special :: "char \<Rightarrow> bool" where
  "field_special c = (c \<in> set ''.[]!:{'')"

definition is_digit :: "char \<Rightarrow> bool" where
  "is_digit c = (c \<in> set ''0123456789'')"

definition lookup_field :: "(string \<times> string) list \<Rightarrow> string \<Rightarrow> string result" where
  "lookup_field kwargs name =
     (if name = [] \<or> list_all is_digit name then Inl IndexError
      else (case map_of kwargs name of None \<Rightarrow> Inl (KeyError name) | Some v \<Rightarrow> Inr v))"

definition prepend :: "string \<Rightarrow> string result \<Rightarrow> string result" where
  "prepend s r = (case r of Inl e \<Rightarrow> Inl e | Inr t \<Rightarrow> Inr (s @ t))"

fun format_scan :: "(string \<times> string) list \<Rightarrow> string option \<Rightarrow> string \<Rightarrow> string result" where
  "format_scan kwargs None [] = Inr []"
| "format_scan kwargs (Some name) [] = Inl ValueError"
| "format_scan kwargs None (c # cs) =
     (if c = CHR ''{'' then
        (case cs of
           [] \<Rightarrow> Inl ValueError
         | c' # cs' \<Rightarrow>
             if c' = CHR ''{'' then prepend ''{'' (format_scan kwargs None cs')
             else format_scan kwargs (Some []) cs)
      else if c = CHR ''}'' then
        (case cs of
           [] \<Rightarrow> Inl ValueError
         | c' # cs' \<Rightarrow>
             if c' = CHR ''}'' then prepend ''}'' (format_scan kwargs None cs')
             else Inl ValueError)
      else prepend [c] (format_scan kwargs None cs))"
| "format_scan kwargs (Some name) (c # cs) =
     (if c = CHR ''}'' then
        (case lookup_field kwargs name of
           Inl e \<Rightarrow> Inl e
         | Inr v \<Rightarrow> prepend v (format_scan kwargs None cs))
      else if field_special c then Inl Unsupported
      else format_scan kwargs (Some (name @ [c])) cs)"

definition py_format :: "string \<Rightarrow> (string \<times> string) list \<Rightarrow> string result" where
  "py_format template kwargs = format_scan kwargs None template"

section \<open>sql.py: the SQL class\<close>

record db_config =
  hostname :: string
  cfg_port :: string
  username :: string
  cfg_password :: "string option"

text \<open>\<open>db_structure.py\<close>: table name and DDL in dictionary order, and the tables that
  read-only users may select from.\<close>

record DatabaseStructure =
  ds_db_structure :: "(string \<times> string) list"
  read_only_tables :: "string list"

record SQL =
  NAMESPACE :: string
  DATABASE_NAME :: string
  database :: string
  db_configs :: "(string \<times> db_config) list"
  db_structure :: DatabaseStructure

definition admin_user :: string where
  "admin_user = ''postgres''"

text \<open>
  The fields as \<open>__init__\<close> leaves them before its first database call: \<open>namespace\<close> is
  the environment variable \<open>NAMESPACE\<close>, \<open>configs\<close> is what \<open>load_db_configs\<close> and
  \<open>validate_admin_password\<close> store, \<open>structure\<close> is \<open>DatabaseStructure()\<close>.
\<close>

definition SQL_init :: "string \<Rightarrow> (string \<times> db_config) list \<Rightarrow> DatabaseStructure \<Rightarrow> SQL" where
  "SQL_init namespace configs structure =
     \<lparr>NAMESPACE = namespace, DATABASE_NAME = namespace, database = str_lower namespace,
      db_configs = configs, db_structure = structure\<rparr>"

text \<open>
  \<open>admin_configs = self.db_configs[self.admin_user]\<close> followed by the constructor call
  \<open>DatabaseConnection(host=admin_configs['hostname'], database=..., port=admin_configs['port'],
  user=admin_configs['username'], password=admin_configs['password'])\<close>: a missing key
  raises \<open>KeyError\<close>.
\<close>

definition admin_connection :: "SQL \<Rightarrow> string option \<Rightarrow> DatabaseConnection result" where
  "admin_connection self db =
     (case map_of (db_configs self) admin_user of
        None \<Rightarrow> Inl (KeyError admin_user)
      | Some admin_configs \<Rightarrow>
          (case cfg_password admin_configs of
             None \<Rightarrow> Inl (KeyError ''password'')
           | Some pw \<Rightarrow>
               Inr (DatabaseConnection_init (hostname admin_configs) db (cfg_port admin_configs)
                      (username admin_configs) pw)))"

text \<open>A \<open>with\<close> body that assigns no variable read after the statement.\<close>

definition no_locals :: "'a result \<times> 'w \<Rightarrow> (unit \<times> exn option) \<times> 'w" where
  "no_locals p = (case p of (Inl e, w) \<Rightarrow> (((), Some e), w) | (Inr v, w) \<Rightarrow> (((), None), w))"

subsection \<open>The statements the class sends\<close>

definition stmt_list_databases :: stmt where
  "stmt_list_databases = Text ''SELECT datname FROM pg_database;''"

definition stmt_create_database :: "SQL \<Rightarrow> stmt" where
  "stmt_create_database self = Text (''CREATE DATABASE '' @ str_upper (database self) @ '';'')"

definition stmt_create_extension :: stmt where
  "stmt_create_extension = Text ''CREATE EXTENSION postgis;''"

definition stmt_role_exists :: "string \<Rightarrow> stmt" where
  "stmt_role_exists user =
     Composed (''SELECT EXISTS( SELECT  1'' @ [nl] @ replicate 68 CHR '' '' @ ''FROM    pg_roles''
               @ [nl] @ replicate 68 CHR '' '' @ ''WHERE   rolname={username}''
               @ [nl] @ replicate 68 CHR '' '' @ '');'')
       [(''username'', Literal user)]"

definition stmt_create_user :: "string \<Rightarrow> string \<Rightarrow> stmt" where
  "stmt_create_user user pw =
     Composed ''CREATE USER {username} WITH PASSWORD {password};''
       [(''username'', Identifier user), (''password'', Literal pw)]"

definition stmt_grant_connect :: "string \<Rightarrow> string \<Rightarrow> stmt" where
  "stmt_grant_connect db user =
     Composed ''GRANT CONNECT ON DATABASE {database} TO {username};''
       [(''database'', Identifier db), (''username'', Identifier user)]"

definition stmt_grant_usage :: "string \<Rightarrow> stmt" where
  "stmt_grant_usage user =
     Composed ''GRANT USAGE ON SCHEMA {schema} TO {username};''
       [(''schema'', Identifier ''public''), (''username'', Identifier user)]"

definition stmt_grant_select :: "string \<Rightarrow> string \<Rightarrow> stmt" where
  "stmt_grant_select table user =
     Composed ''GRANT SELECT ON {table} TO {username};''
       [(''table'', Identifier table), (''username'', Identifier user)]"

definition stmt_table_exists :: "nat \<Rightarrow> string \<Rightarrow> stmt" where
  "stmt_table_exists indent table =
     TextArgs (''SELECT EXISTS('' @ [nl] @ replicate indent CHR '' '' @ ''SELECT * ''
               @ [nl] @ replicate indent CHR '' '' @ ''FROM information_schema.tables ''
               @ [nl] @ replicate indent CHR '' '' @ ''WHERE table_name=%(table)s''
               @ [nl] @ replicate indent CHR '' '' @ '');'')
       [(''table'', table)]"

definition stmt_truncate :: "string \<Rightarrow> stmt" where
  "stmt_truncate table = Text (''TRUNCATE TABLE '' @ table @ '' CASCADE;'')"

subsection \<open>create_database\<close>

text \<open>
  The body of the first \<open>with\<close> leaves the local \<open>db_exists\<close>: \<open>None\<close> until the catalog
  has been read, then \<open>True\<close> or \<open>False\<close>.  \<open>psycopg2.connect\<close> returns a connection or
  raises, so the test \<open>conn is not None\<close> always holds.  \<open>not db_exists\<close> is true for
  \<open>None\<close> and for \<open>False\<close>.
\<close>

definition create_database_check ::
  "'db destination \<Rightarrow> SQL \<Rightarrow> nat \<Rightarrow> 'db world \<Rightarrow> (bool option \<times> exn option) \<times> 'db world" where
  "create_database_check D self conn w =
     (case cur_execute D conn stmt_list_databases w of
        (Inl e, w1) \<Rightarrow> ((None, Some e), w1)
      | (Inr list_databases, w1) \<Rightarrow>
          (let check_db = database self in
           if [S check_db] \<in> set list_databases then ((Some True, None), w1)
           else
             (case cur_execute D conn (stmt_create_database self) w1 of
                (Inl e, w2) \<Rightarrow> ((Some False, Some e), w2)
              | (Inr _, w2) \<Rightarrow> ((Some False, None), w2))))"

definition create_database :: "'db destination \<Rightarrow> SQL \<Rightarrow> 'db world \<Rightarrow> unit result \<times> 'db world" where
  "create_database D self w =
     (case admin_connection self None of
        Inl e \<Rightarrow> (Inl e, w)
      | Inr obj \<Rightarrow>
          (case with_connection D obj (create_database_check D self) w of
             (Inl e, w1) \<Rightarrow> (Inl e, w1)
           | (Inr db_exists, w1) \<Rightarrow>
               if db_exists \<noteq> Some True then
                 (case admin_connection self (Some (database self)) of
                    Inl e \<Rightarrow> (Inl e, w1)
                  | Inr obj2 \<Rightarrow>
                      (case with_connection D obj2
                              (\<lambda>conn w'. no_locals (cur_execute D conn stmt_create_extension w')) w1 of
                         (Inl e, w2) \<Rightarrow> (Inl e, w2)
                       | (Inr _, w2) \<Rightarrow> (Inr (), w2)))
               else (Inr (), w1)))"

subsection \<open>create_tables and truncate_db\<close>

fun create_tables_loop ::
  "'db destination \<Rightarrow> nat \<Rightarrow> (string \<times> string) list \<Rightarrow> 'db world \<Rightarrow> unit result \<times> 'db world" where
  "create_tables_loop D conn [] w = (Inr (), w)"
| "create_tables_loop D conn ((table, sql_stmt) # rest) w =
     (case cur_execute D conn (stmt_table_exists 48 table) w of
        (Inl e, w1) \<Rightarrow> (Inl e, w1)
      | (Inr rows, w1) \<Rightarrow>
          (case fetchone_0 rows of
             Inl e \<Rightarrow> (Inl e, w1)
           | Inr table_exists \<Rightarrow>
               if truthy table_exists then create_tables_loop D conn rest w1
               else
                 (case cur_execute D conn (Text sql_stmt) w1 of
                    (Inl e, w2) \<Rightarrow> (Inl e, w2)
                  | (Inr _, w2) \<Rightarrow> create_tables_loop D conn rest w2)))"

definition create_tables :: "'db destination \<Rightarrow> SQL \<Rightarrow> 'db world \<Rightarrow> unit result \<times> 'db world" where
  "create_tables D self w =
     (case admin_connection self (Some (database self)) of
        Inl e \<Rightarrow> (Inl e, w)
      | Inr obj \<Rightarrow>
          (case with_connection D obj
                  (\<lambda>conn w'. no_locals
                     (create_tables_loop D conn (ds_db_structure (db_structure self)) w')) w of
             (Inl e, w1) \<Rightarrow> (Inl e, w1)
           | (Inr _, w1) \<Rightarrow> (Inr (), w1)))"

fun truncate_db_loop ::
  "'db destination \<Rightarrow> nat \<Rightarrow> string list \<Rightarrow> 'db world \<Rightarrow> unit result \<times> 'db world" where
  "truncate_db_loop D conn [] w = (Inr (), w)"
| "truncate_db_loop D conn (table # rest) w =
     (case cur_execute D conn (stmt_table_exists 56 table) w of
        (Inl e, w1) \<Rightarrow> (Inl e, w1)
      | (Inr rows, w1) \<Rightarrow>
          (case fetchone_0 rows of
             Inl e \<Rightarrow> (Inl e, w1)
           | Inr table_exists \<Rightarrow>
               if truthy table_exists then
                 (case cur_execute D conn (stmt_truncate table) w1 of
                    (Inl e, w2) \<Rightarrow> (Inl e, w2)
                  | (Inr _, w2) \<Rightarrow> truncate_db_loop D conn rest w2)
               else truncate_db_loop D conn rest w1))"

definition truncate_db :: "'db destination \<Rightarrow> SQL \<Rightarrow> 'db world \<Rightarrow> unit result \<times> 'db world" where
  "truncate_db D self w =
     (case admin_connection self (Some (database self)) of
        Inl e \<Rightarrow> (Inl e, w)
      | Inr obj \<Rightarrow>
          (case with_connection D obj
                  (\<lambda>conn w'. no_locals
                     (truncate_db_loop D conn (map fst (ds_db_structure (db_structure self))) w')) w of
             (Inl e, w1) \<Rightarrow> (Inl e, w1)
           | (Inr _, w1) \<Rightarrow> (Inr (), w1)))"

subsection \<open>generate_sql_row_insert\<close>

text \<open>
  A value of a row: \<open>NA\<close> is any value for which \<open>pd.isna\<close> holds (\<open>None\<close>, NaN, NaT),
  \<open>Str s\<close> is the \<open>str\<close> \<open>s\<close>, and \<open>Obj s\<close> is a scalar of any other type (a number, a
  date, a boolean, ...) whose formatted form \<open>f"{v}"\<close> is \<open>s\<close>.  A row is a pandas Series:
  its index labels with their values, in order.
\<close>

datatype pyval = NA | Str string | Obj string

type_synonym row = "(string \<times> pyval) list"

definition row_value :: "pyval \<Rightarrow> string" where
  "row_value v =
     (case v of
        NA \<Rightarrow> ''NULL''
      | Str s \<Rightarrow> [sq] @ strip_quotes s @ [sq]
      | Obj s \<Rightarrow> [sq] @ s @ [sq])"

text \<open>
  With a repeated index label \<open>data_series[col]\<close> is a Series, not a scalar, and the test
  \<open>if pd.isna(...)\<close> raises \<open>ValueError\<close>; nothing the function did before is visible.
\<close>

definition generate_sql_row_insert :: "string \<Rightarrow> row \<Rightarrow> string result" where
  "generate_sql_row_insert table data_series =
     (let sql_statement = ''INSERT INTO '' @ [nl, tab] @ table @ '' '';
          cols = map fst data_series;
          sql_statement = sql_statement @ ''('' @ py_join '', '' cols @ '')'' @ [nl] @ ''VALUES'' @ [nl];
          value_placeholders = map (\<lambda>col. ''{'' @ col @ ''}'') cols;
          sql_statement = sql_statement @ [tab] @ ''('' @ py_join '', '' value_placeholders @ '');'' @ [nl];
          row_dict = map (\<lambda>(col, v). (col, row_value v)) data_series
      in if \<not> distinct cols then Inl ValueError
         else py_format sql_statement row_dict)"

subsection \<open>execute_batch_sql_commands and df_insert_to_database\<close>

definition execute_batch_sql_commands ::
  "'db destination \<Rightarrow> SQL \<Rightarrow> string list \<Rightarrow> 'db world \<Rightarrow> unit result \<times> 'db world" where
  "execute_batch_sql_commands D self sql_commands w =
     (let batch_query = concat sql_commands in
      case admin_connection self (Some (database self)) of
        Inl e \<Rightarrow> (Inl e, w)
      | Inr obj \<Rightarrow>
          (case with_connection D obj
                  (\<lambda>conn w'. no_locals (cur_execute D conn (Text batch_query) w')) w of
             (Inl e, w1) \<Rightarrow> (Inl e, w1)
           | (Inr _, w1) \<Rightarrow> (Inr (), w1)))"

text \<open>The first loop of \<open>df_insert_to_database\<close>: one statement per row of the dataframe.\<close>

fun generate_commands :: "string \<Rightarrow> row list \<Rightarrow> string list result" where
  "generate_commands table_name [] = Inr []"
| "generate_commands table_name (r # rest) =
     (case generate_sql_row_insert table_name r of
        Inl e \<Rightarrow> Inl e
      | Inr c \<Rightarrow>
          (case generate_commands table_name rest of
             Inl e \<Rightarrow> Inl e
           | Inr cs \<Rightarrow> Inr (c # cs)))"

text \<open>
  The second attempt, over \<open>enumerate(sql_commands)\<close>.  The bare \<open>except\<close> catches whatever
  \<open>cur.execute\<close> raises, appends \<open>dataframe.iloc[i]\<close> to \<open>failures\<close> (an index out of range
  raises) and calls \<open>conn.rollback()\<close>; an exception raised there leaves the loop.  The
  result carries \<open>failures\<close> as the body of the \<open>with\<close> leaves it.  \<open>DataFrame.append\<close> is
  the method of pandas 1.x, which returns the frame with the row added; the dataframe
  is the list of its rows.
\<close>

fun individual_execution ::
  "'db destination \<Rightarrow> nat \<Rightarrow> row list \<Rightarrow> (nat \<times> string) list \<Rightarrow> row list \<Rightarrow> 'db world
     \<Rightarrow> (row list \<times> exn option) \<times> 'db world" where
  "individual_execution D conn dataframe [] failures w = ((failures, None), w)"
| "individual_execution D conn dataframe ((i, sql_command) # rest) failures w =
     (case cur_execute D conn (Text sql_command) w of
        (Inr _, w1) \<Rightarrow> individual_execution D conn dataframe rest failures w1
      | (Inl _, w1) \<Rightarrow>
          if i < length dataframe then
            (case conn_rollback conn w1 of
               (Inl e, w2) \<Rightarrow> ((failures @ [dataframe ! i], Some e), w2)
             | (Inr _, w2) \<Rightarrow>
                 individual_execution D conn dataframe rest (failures @ [dataframe ! i]) w2)
          else ((failures, Some IndexError), w1))"

definition df_insert_to_database ::
  "'db destination \<Rightarrow> SQL \<Rightarrow> row list \<Rightarrow> string \<Rightarrow> 'db world \<Rightarrow> (row list) result \<times> 'db world" where
  "df_insert_to_database D self dataframe table_name w =
     (case generate_commands table_name dataframe of
        Inl e \<Rightarrow> (Inl e, w)
      | Inr sql_commands \<Rightarrow>
          (case (if sql_commands \<noteq> [] then
                   (case execute_batch_sql_commands D self sql_commands w of
                      (Inl e, w1) \<Rightarrow> (True, w1)
                    | (Inr _, w1) \<Rightarrow> (False, w1))
                 else (False, w)) of
             (retry_insert, w1) \<Rightarrow>
               if retry_insert then
                 (case admin_connection self (Some (database self)) of
                    Inl e \<Rightarrow> (Inl e, w1)
                  | Inr obj \<Rightarrow>
                      with_connection D obj
                        (\<lambda>conn. individual_execution D conn dataframe
                                   (enumerate 0 sql_commands) []) w1)
               else (Inr [], w1)))"

subsection \<open>create_read_only_users\<close>

text \<open>\<open>keyring.get_password\<close> gives a string or \<open>None\<close>; an f-string prints \<open>None\<close> by
  name.\<close>

definition derived_password :: "string \<Rightarrow> string option \<Rightarrow> string" where
  "derived_password user admin_password =
     user @ ''_'' @ (case admin_password of None \<Rightarrow> ''None'' | Some p \<Rightarrow> p)"

fun grant_select_loop ::
  "'db destination \<Rightarrow> nat \<Rightarrow> string \<Rightarrow> string list \<Rightarrow> 'db world \<Rightarrow> unit result \<times> 'db world" where
  "grant_select_loop D conn user [] w = (Inr (), w)"
| "grant_select_loop D conn user (table # rest) w =
     (case cur_execute D conn (stmt_grant_select table user) w of
        (Inl e, w1) \<Rightarrow> (Inl e, w1)
      | (Inr _, w1) \<Rightarrow> grant_select_loop D conn user rest w1)"

text \<open>The body of the second \<open>with\<close>, on the connection to the database.\<close>

definition grant_schema_body ::
  "'db destination \<Rightarrow> SQL \<Rightarrow> string \<Rightarrow> nat \<Rightarrow> 'db world \<Rightarrow> unit result \<times> 'db world" where
  "grant_schema_body D self user conn w =
     (case cur_execute D conn (stmt_grant_usage user) w of
        (Inl e, w1) \<Rightarrow> (Inl e, w1)
      | (Inr _, w1) \<Rightarrow> grant_select_loop D conn user (read_only_tables (db_structure self)) w1)"

text \<open>
  The body of the first \<open>with\<close>, on the connection to the server.  \<open>cur.execute(stmt)\<close>
  stands after the \<open>if not user_exists\<close> block, not inside it: for an existing role
  \<open>stmt\<close> is still the catalog query, which is sent a second time.  The second \<open>with\<close> is
  indented under the first one, so it runs while the first connection is open.
\<close>

definition provision_body ::
  "'db destination \<Rightarrow> SQL \<Rightarrow> string option \<Rightarrow> string \<Rightarrow> nat \<Rightarrow> 'db world \<Rightarrow> unit result \<times> 'db world" where
  "provision_body D self admin_password user conn w =
     (case cur_execute D conn (stmt_role_exists user) w of
        (Inl e, w1) \<Rightarrow> (Inl e, w1)
      | (Inr rows, w1) \<Rightarrow>
          (case fetchone_0 rows of
             Inl e \<Rightarrow> (Inl e, w1)
           | Inr user_exists \<Rightarrow>
               (let stmt = (if \<not> truthy user_exists
                            then stmt_create_user user (derived_password user admin_password)
                            else stmt_role_exists user)
                in case cur_execute D conn stmt w1 of
                     (Inl e, w2) \<Rightarrow> (Inl e, w2)
                   | (Inr _, w2) \<Rightarrow>
                       (case cur_execute D conn (stmt_grant_connect (database self) user) w2 of
                          (Inl e, w3) \<Rightarrow> (Inl e, w3)
                        | (Inr _, w3) \<Rightarrow>
                            (case admin_connection self (Some (database self)) of
                               Inl e \<Rightarrow> (Inl e, w3)
                             | Inr obj2 \<Rightarrow>
                                 (case with_connection D obj2
                                         (\<lambda>conn2 w'. no_locals (grant_schema_body D self user conn2 w')) w3 of
                                    (Inl e, w4) \<Rightarrow> (Inl e, w4)
                                  | (Inr _, w4) \<Rightarrow> (Inr (), w4)))))))"

text \<open>\<open>self.db_configs[user]['password'] = ...\<close>\<close>

definition set_password :: "string \<Rightarrow> string \<Rightarrow> SQL \<Rightarrow> SQL result" where
  "set_password user pw self =
     (case map_of (db_configs self) user of
        None \<Rightarrow> Inl (KeyError user)
      | Some _ \<Rightarrow>
          Inr (self\<lparr>db_configs :=
                 map (\<lambda>(k, c). if k = user then (k, c\<lparr>cfg_password := Some pw\<rparr>) else (k, c))
                   (db_configs self)\<rparr>))"

text \<open>One pass of the inner loop body for \<open>user\<close>.\<close>

definition provision_user ::
  "'db destination \<Rightarrow> string option \<Rightarrow> string \<Rightarrow> SQL \<Rightarrow> 'db world \<Rightarrow> SQL result \<times> 'db world" where
  "provision_user D admin_password user self w =
     (case admin_connection self None of
        Inl e \<Rightarrow> (Inl e, w)
      | Inr obj \<Rightarrow>
          (case with_connection D obj
                  (\<lambda>conn w'. no_locals (provision_body D self admin_password user conn w')) w of
             (Inl e, w1) \<Rightarrow> (Inl e, w1)
           | (Inr _, w1) \<Rightarrow> (set_password user (derived_password user admin_password) self, w1)))"

text \<open>
  \<open>for user in users:\<close> stands twice, one loop inside the other over the same list and
  with the same variable: the body runs once for every pair.
\<close>

fun inner_users_loop ::
  "'db destination \<Rightarrow> string option \<Rightarrow> string list \<Rightarrow> SQL \<Rightarrow> 'db world \<Rightarrow> SQL result \<times> 'db world" where
  "inner_users_loop D admin_password [] self w = (Inr self, w)"
| "inner_users_loop D admin_password (user # rest) self w =
     (case provision_user D admin_password user self w of
        (Inl e, w1) \<Rightarrow> (Inl e, w1)
      | (Inr self1, w1) \<Rightarrow> inner_users_loop D admin_password rest self1 w1)"

fun outer_users_loop ::
  "'db destination \<Rightarrow> string option \<Rightarrow> string list \<Rightarrow> string list \<Rightarrow> SQL \<Rightarrow> 'db world
     \<Rightarrow> SQL result \<times> 'db world" where
  "outer_users_loop D admin_password users [] self w = (Inr self, w)"
| "outer_users_loop D admin_password users (user # rest) self w =
     (case inner_users_loop D admin_password users self w of
        (Inl e, w1) \<Rightarrow> (Inl e, w1)
      | (Inr self1, w1) \<Rightarrow> outer_users_loop D admin_password users rest self1 w1)"

definition create_read_only_users ::
  "'db destination \<Rightarrow> string option \<Rightarrow> SQL \<Rightarrow> 'db world \<Rightarrow> SQL result \<times> 'db world" where
  "create_read_only_users D admin_password self w =
     (let users = filter (\<lambda>x. x \<noteq> ''postgres'') (map fst (db_configs self))
      in outer_users_loop D admin_password users users self w)"

section \<open>A small destination server\<close>

text \<open>
  The theorems below hold for every destination.  To run them on concrete inputs this
  section gives one: a server with a catalog of databases, roles, extensions and
  privileges.  It folds the unquoted name of \<open>CREATE DATABASE\<close> to lower case, keeps
  quoted identifiers as they are, treats a privilege that is granted again as already
  held, and rejects a command text that contains a NUL character, as the client library
  does; every other command text is accepted and recorded.
\<close>

record pg_state =
  pg_databases :: "string list"
  pg_roles :: "string list"
  pg_extensions :: "(string \<times> string) list"
  pg_tables :: "string list"
  pg_acl :: "(string \<times> string \<times> string) list"
  pg_accepted :: "string list"

definition pg_accepts :: "pg_state \<Rightarrow> conninfo \<Rightarrow> bool" where
  "pg_accepts d ci = (case ci_dbname ci of None \<Rightarrow> True | Some db \<Rightarrow> db \<in> set (pg_databases d))"

definition pg_grant :: "pg_state \<Rightarrow> string \<Rightarrow> string \<Rightarrow> string \<Rightarrow> (pg_state \<times> cell list list) option" where
  "pg_grant d privilege object grantee =
     (if grantee \<in> set (pg_roles d)
      then Some (d\<lparr>pg_acl := List.insert (privilege, object, grantee) (pg_acl d)\<rparr>, [])
      else None)"

definition pg_text :: "pg_state \<Rightarrow> conninfo \<Rightarrow> string \<Rightarrow> (pg_state \<times> cell list list) option" where
  "pg_text d ci q =
     (if CHR 0x00 \<in> set q then None
      else if q = ''SELECT datname FROM pg_database;''
        then Some (d, map (\<lambda>n. [S n]) (pg_databases d))
      else if take 16 q = ''CREATE DATABASE '' \<and> drop (length q - 1) q = '';''
        then (let name = str_lower (take (length q - 17) (drop 16 q)) in
              if name \<in> set (pg_databases d) then None
              else Some (d\<lparr>pg_databases := pg_databases d @ [name]\<rparr>, []))
      else if q = ''CREATE EXTENSION postgis;''
        then (case ci_dbname ci of
                None \<Rightarrow> None
              | Some db \<Rightarrow>
                  if (db, ''postgis'') \<in> set (pg_extensions d) then None
                  else Some (d\<lparr>pg_extensions := pg_extensions d @ [(db, ''postgis'')]\<rparr>, []))
      else Some (d\<lparr>pg_accepted := pg_accepted d @ [q]\<rparr>, []))"

fun pg_run :: "pg_state \<Rightarrow> conninfo \<Rightarrow> stmt \<Rightarrow> (pg_state \<times> cell list list) option" where
  "pg_run d ci (Text q) = pg_text d ci q"
| "pg_run d ci (TextArgs q args) =
     (case map_of args ''table'' of
        None \<Rightarrow> None
      | Some t \<Rightarrow> Some (d, [[B (t \<in> set (pg_tables d))]]))"
| "pg_run d ci (Composed q args) =
     (if take 13 q = ''SELECT EXISTS'' then
        (case map_of args ''username'' of
           Some (Literal u) \<Rightarrow> Some (d, [[B (u \<in> set (pg_roles d))]])
         | _ \<Rightarrow> None)
      else if take 11 q = ''CREATE USER'' then
        (case map_of args ''username'' of
           Some (Identifier u) \<Rightarrow>
             if u \<in> set (pg_roles d) then None
             else Some (d\<lparr>pg_roles := pg_roles d @ [u]\<rparr>, [])
         | _ \<Rightarrow> None)
      else if take 13 q = ''GRANT CONNECT'' then
        (case (map_of args ''database'', map_of args ''username'') of
           (Some (Identifier db), Some (Identifier u)) \<Rightarrow>
             if db \<in> set (pg_databases d) then pg_grant d ''CONNECT'' db u else None
         | _ \<Rightarrow> None)
      else if take 11 q = ''GRANT USAGE'' then
        (case (map_of args ''schema'', map_of args ''username'') of
           (Some (Identifier sch), Some (Identifier u)) \<Rightarrow> pg_grant d ''USAGE'' sch u
         | _ \<Rightarrow> None)
      else if take 12 q = ''GRANT SELECT'' then
        (case (map_of args ''table'', map_of args ''username'') of
           (Some (Identifier t), Some (Identifier u)) \<Rightarrow>
             if t \<in> set (pg_tables d) then pg_grant d ''SELECT'' t u else None
         | _ \<Rightarrow> None)
      else None)"

definition pg :: "pg_state destination" where
  "pg = \<lparr>accepts = pg_accepts, run = pg_run\<rparr>"

text \<open>A server that has only the maintenance database and the role \<open>postgres\<close>, and one on
  which the pipeline has been set up before.\<close>

definition pg_fresh :: pg_state where
  "pg_fresh = \<lparr>pg_databases = [''postgres''], pg_roles = [''postgres''], pg_extensions = [],
               pg_tables = [], pg_acl = [], pg_accepted = []\<rparr>"

definition pg_ready :: pg_state where
  "pg_ready = \<lparr>pg_databases = [''postgres'', ''afdc_api''], pg_roles = [''postgres''],
               pg_extensions = [(''afdc_api'', ''postgis'')],
               pg_tables = [''station'', ''evse''], pg_acl = [], pg_accepted = []\<rparr>"

definition world0 :: "'db \<Rightarrow> 'db world" where
  "world0 d = \<lparr>dbstate = d, live = [], fresh = 0, trace = []\<rparr>"

definition demo_configs :: "(string \<times> db_config) list" where
  "demo_configs =
     [(''postgres'', \<lparr>hostname = ''localhost'', cfg_port = ''5432'', username = ''postgres'',
                       cfg_password = Some ''secret''\<rparr>),
      (''reader'', \<lparr>hostname = ''localhost'', cfg_port = ''5432'', username = ''reader'',
                     cfg_password = None\<rparr>)]"

definition demo_structure :: DatabaseStructure where
  "demo_structure =
     \<lparr>ds_db_structure = [(''station'', ''CREATE TABLE station (id VARCHAR(255) NOT NULL)''),
                         (''evse'', ''CREATE TABLE evse (id VARCHAR(255) NOT NULL)'')],
      read_only_tables = [''station'', ''evse'']\<rparr>"

definition demo_sql :: SQL where
  "demo_sql = SQL_init ''AFDC_API'' demo_configs demo_structure"

definition demo_connection :: DatabaseConnection where
  "demo_connection = DatabaseConnection_init ''localhost'' None ''5432'' ''postgres'' ''secret''"

text \<open>A \<open>with\<close> body whose only command the server rejects.\<close>

definition failing_body :: "nat \<Rightarrow> pg_state world \<Rightarrow> (unit \<times> exn option) \<times> pg_state world" where
  "failing_body conn w = no_locals (cur_execute pg conn (Text [CHR 0x00]) w)"

section \<open>Reading the code as a sequence of steps\<close>

text \<open>
  The functions above spell out every step as a case distinction on its outcome.  For
  proofs the same functions are read as compositions: \<open>and_then m f\<close> runs \<open>m\<close> and, unless
  it raised, runs \<open>f\<close> on its value; \<open>returning r\<close> is a step without effect on the world.
\<close>

definition and_then ::
  "('w \<Rightarrow> 'a result \<times> 'w) \<Rightarrow> ('a \<Rightarrow> 'w \<Rightarrow> 'b result \<times> 'w) \<Rightarrow> 'w \<Rightarrow> 'b result \<times> 'w" where
  "and_then m f = (\<lambda>w. case m w of (Inl e, w1) \<Rightarrow> (Inl e, w1) | (Inr x, w1) \<Rightarrow> f x w1)"

definition returning :: "'a result \<Rightarrow> 'w \<Rightarrow> 'a result \<times> 'w" where
  "returning r = (\<lambda>w. (r, w))"

text \<open>The keyword arguments \<open>__enter__\<close> connects with, and the world right after a
  connection has been opened.\<close>

definition connect_kwargs :: "DatabaseConnection \<Rightarrow> conninfo" where
  "connect_kwargs obj = (if dc_database obj = None then connect_db_server obj else connect_db obj)"

definition opened :: "'db world \<Rightarrow> conninfo \<Rightarrow> 'db world" where
  "opened w ci = w\<lparr>live := (new_handle w, ci) # live w, fresh := Suc (new_handle w),
                   trace := trace w @ [Connect (new_handle w) ci]\<rparr>"

text \<open>A step keeps the open connections when the connections open after it are those
  open before it.\<close>

definition keeps_live :: "('db world \<Rightarrow> 'a \<times> 'db world) \<Rightarrow> bool" where
  "keeps_live m = (\<forall>w. live (snd (m w)) = live w)"

subsection \<open>Reading the log\<close>

text \<open>How many connections a log shows being opened.\<close>

fun is_Connect :: "event \<Rightarrow> bool" where
  "is_Connect (Connect h ci) = True"
| "is_Connect _ = False"

definition connections_opened :: "event list \<Rightarrow> nat" where
  "connections_opened evs = length (filter is_Connect evs)"

text \<open>The largest number of connections a log shows open at the same time, starting from
  \<open>n\<close> open ones.\<close>

fun peak_open :: "nat \<Rightarrow> event list \<Rightarrow> nat" where
  "peak_open n [] = n"
| "peak_open n (Connect h ci # evs) = max (Suc n) (peak_open (Suc n) evs)"
| "peak_open n (Close h # evs) = max n (peak_open (n - 1) evs)"
| "peak_open n (ev # evs) = peak_open n evs"

text \<open>
  Reading a log.  A step is disciplined when it only adds to the log and a command the
  server rejected ends it: the rejection raises \<open>DatabaseError\<close> out of the step, and
  after the rejected command the log shows nothing but connections being closed.
\<close>

fun is_Close :: "event \<Rightarrow> bool" where
  "is_Close (Close h) = True"
| "is_Close _ = False"

fun failed_execute :: "event \<Rightarrow> bool" where
  "failed_execute (Execute h q ok) = (\<not> ok)"
| "failed_execute _ = False"

definition clean :: "event list \<Rightarrow> bool" where
  "clean evs = list_all (\<lambda>ev. \<not> failed_execute ev) evs"

fun well_aborted :: "event list \<Rightarrow> bool" where
  "well_aborted [] = True"
| "well_aborted (ev # evs) = (if failed_execute ev then list_all is_Close evs else well_aborted evs)"

definition exn_of :: "'a result \<Rightarrow> exn option" where
  "exn_of r = (case r of Inl e \<Rightarrow> Some e | Inr _ \<Rightarrow> None)"

definition disciplined :: "('x \<Rightarrow> exn option) \<Rightarrow> ('db world \<Rightarrow> 'x \<times> 'db world) \<Rightarrow> bool" where
  "disciplined raised m =
     (\<forall>w. \<exists>evs. trace (snd (m w)) = trace w @ evs \<and> well_aborted evs
                 \<and> (clean evs \<or> raised (fst (m w)) = Some DatabaseError))"

text \<open>The events a call added to the log.\<close>

definition new_events :: "'db world \<Rightarrow> 'db world \<Rightarrow> event list" where
  "new_events w w' = drop (length (trace w)) (trace w')"

definition pg_no_tables :: pg_state where
  "pg_no_tables = pg_ready\<lparr>pg_tables := []\<rparr>"

definition demo_ci_server :: conninfo where
  "demo_ci_server = \<lparr>ci_host = ''localhost'', ci_dbname = None, ci_port = ''5432'',
                      ci_user = ''postgres'', ci_password = ''secret''\<rparr>"

definition demo_ci_db :: conninfo where
  "demo_ci_db = \<lparr>ci_host = ''localhost'', ci_dbname = Some ''afdc_api'', ci_port = ''5432'',
                  ci_user = ''postgres'', ci_password = ''secret''\<rparr>"

text \<open>Whether a log shows a statement being sent, and being sent with success.\<close>

fun executes :: "stmt \<Rightarrow> event \<Rightarrow> bool" where
  "executes q (Execute h q' ok) = (q' = q)"
| "executes q _ = False"

fun executes_ok :: "stmt \<Rightarrow> event \<Rightarrow> bool" where
  "executes_ok q (Execute h q' ok) = (q' = q \<and> ok)"
| "executes_ok q _ = False"

definition issued :: "stmt \<Rightarrow> event list \<Rightarrow> bool" where
  "issued q evs = list_ex (executes q) evs"

definition succeeded :: "stmt \<Rightarrow> event list \<Rightarrow> bool" where
  "succeeded q evs = list_ex (executes_ok q) evs"

definition demo_connection_db :: DatabaseConnection where
  "demo_connection_db =
     DatabaseConnection_init ''localhost'' (Some ''afdc_api'') ''5432'' ''postgres'' ''secret''"

subsection \<open>The second attempt of \<open>df_insert_to_database\<close>, as the claim describes it\<close>

text \<open>
  The claim's words, as definitions to compare the code with.  Executing the statements
  individually means running each one once, in order, in the state its predecessors
  left; a statement the server rejects leaves the state as it was.  The failure set has
  the rows whose statement was rejected, in the order of the dataframe.  Each rejection
  is followed by a rollback on the same connection.
\<close>

fun individual_outcomes :: "'db destination \<Rightarrow> conninfo \<Rightarrow> 'db \<Rightarrow> string list \<Rightarrow> bool list" where
  "individual_outcomes D ci d [] = []"
| "individual_outcomes D ci d (c # cs) =
     (case run D d ci (Text c) of
        None \<Rightarrow> False # individual_outcomes D ci d cs
      | Some (d', rows) \<Rightarrow> True # individual_outcomes D ci d' cs)"

fun state_after :: "'db destination \<Rightarrow> conninfo \<Rightarrow> 'db \<Rightarrow> string list \<Rightarrow> 'db" where
  "state_after D ci d [] = d"
| "state_after D ci d (c # cs) =
     (case run D d ci (Text c) of
        None \<Rightarrow> state_after D ci d cs
      | Some (d', rows) \<Rightarrow> state_after D ci d' cs)"

definition failure_set :: "row list \<Rightarrow> bool list \<Rightarrow> row list" where
  "failure_set dataframe outcomes = map fst (filter (\<lambda>p. \<not> snd p) (zip dataframe outcomes))"

fun fallback_events :: "nat \<Rightarrow> (string \<times> bool) list \<Rightarrow> event list" where
  "fallback_events h [] = []"
| "fallback_events h ((c, ok) # rest) =
     (if ok then [Execute h (Text c) True] else [Execute h (Text c) False, Rollback h])
     @ fallback_events h rest"

definition demo_rows :: "row list" where
  "demo_rows = [[(''id'', Str ''1'')], [(''id'', Str [CHR 0x00])], [(''id'', Str ''3'')]]"

definition demo_commands :: "string list" where
  "demo_commands = (case generate_commands ''station'' demo_rows of Inl e \<Rightarrow> [] | Inr cs \<Rightarrow> cs)"

subsection \<open>Provisioning a role that exists\<close>

text \<open>
  What a second run meets.  A role is already provisioned in a server state when the
  catalog query for it answers with a true value and each of its grants is accepted and
  changes nothing, which is what granting a privilege that is already held does.
\<close>

definition answers_true :: "'db destination \<Rightarrow> 'db \<Rightarrow> conninfo \<Rightarrow> stmt \<Rightarrow> bool" where
  "answers_true D d ci q =
     (case run D d ci q of
        None \<Rightarrow> False
      | Some (d', rows) \<Rightarrow> d' = d \<and> (case fetchone_0 rows of Inl e \<Rightarrow> False | Inr c \<Rightarrow> truthy c))"

definition no_op :: "'db destination \<Rightarrow> 'db \<Rightarrow> conninfo \<Rightarrow> stmt \<Rightarrow> bool" where
  "no_op D d ci q = (case run D d ci q of None \<Rightarrow> False | Some (d', rows) \<Rightarrow> d' = d)"

definition already_provisioned ::
  "'db destination \<Rightarrow> SQL \<Rightarrow> 'db \<Rightarrow> conninfo \<Rightarrow> conninfo \<Rightarrow> string \<Rightarrow> bool" where
  "already_provisioned D self d ci_server ci_db user =
     (answers_true D d ci_server (stmt_role_exists user)
      \<and> no_op D d ci_server (stmt_grant_connect (database self) user)
      \<and> no_op D d ci_db (stmt_grant_usage user)
      \<and> list_all (\<lambda>table. no_op D d ci_db (stmt_grant_select table user))
           (read_only_tables (db_structure self)))"

definition non_admin_users :: "SQL \<Rightarrow> string list" where
  "non_admin_users self = filter (\<lambda>x. x \<noteq> ''postgres'') (map fst (db_configs self))"

text \<open>The statements of a log with their outcomes, and the statements one pass of the loop
  body sends for a role that exists.\<close>

fun statements :: "event list \<Rightarrow> (stmt \<times> bool) list" where
  "statements [] = []"
| "statements (Execute h q ok # evs) = (q, ok) # statements evs"
| "statements (ev # evs) = statements evs"

definition user_statements :: "SQL \<Rightarrow> string \<Rightarrow> (stmt \<times> bool) list" where
  "user_statements self user =
     [(stmt_role_exists user, True), (stmt_role_exists user, True),
      (stmt_grant_connect (database self) user, True), (stmt_grant_usage user, True)]
     @ map (\<lambda>table. (stmt_grant_select table user, True)) (read_only_tables (db_structure self))"

fun is_create_user :: "stmt \<Rightarrow> bool" where
  "is_create_user (Composed q args) = (q = ''CREATE USER {username} WITH PASSWORD {password};'')"
| "is_create_user _ = False"

text \<open>A step performs a list of statements when it returns normally with a value as
  described, sends exactly these statements, and leaves server state and open
  connections as they were.\<close>

definition performs ::
  "('a \<Rightarrow> bool) \<Rightarrow> (stmt \<times> bool) list \<Rightarrow> ('db world \<Rightarrow> 'a result \<times> 'db world) \<Rightarrow> 'db world \<Rightarrow> bool" where
  "performs Q sts m w =
     (\<exists>x w' evs. m w = (Inr x, w') \<and> Q x \<and> dbstate w' = dbstate w \<and> live w' = live w
                  \<and> trace w' = trace w @ evs \<and> statements evs = sts)"

definition same_setup :: "SQL \<Rightarrow> SQL \<Rightarrow> bool" where
  "same_setup self self' =
     (database self' = database self \<and> db_structure self' = db_structure self
      \<and> map_of (db_configs self') admin_user = map_of (db_configs self) admin_user
      \<and> map fst (db_configs self') = map fst (db_configs self))"

subsection \<open>The statement of the row serializer\<close>

text \<open>
  Names the scanner of \<open>str.format\<close> takes literally: a table name without braces, and
  column names that are not empty, not a number, and free of braces and of the
  characters that start an attribute, an index, a conversion or a format specification.
\<close>

definition brace_free :: "string \<Rightarrow> bool" where
  "brace_free s = list_all (\<lambda>c. c \<noteq> CHR ''{'' \<and> c \<noteq> CHR ''}'') s"

definition plain_name :: "string \<Rightarrow> bool" where
  "plain_name n = (n \<noteq> [] \<and> \<not> list_all is_digit n
                   \<and> list_all (\<lambda>c. \<not> field_special c \<and> c \<noteq> CHR ''}'') n)"

text \<open>The statement the spec describes: the fixed text up to the opening parenthesis of
  the value list, the value literals separated by commas, and the closing text.\<close>

definition insert_head :: "string \<Rightarrow> string list \<Rightarrow> string" where
  "insert_head table cols =
     ''INSERT INTO '' @ [nl, tab] @ table @ '' ('' @ py_join '', '' cols @ '')'' @ [nl]
     @ ''VALUES'' @ [nl, tab] @ ''(''"

definition insert_statement :: "string \<Rightarrow> row \<Rightarrow> string" where
  "insert_statement table data_series =
     insert_head table (map fst data_series)
     @ py_join '', '' (map (\<lambda>p. row_value (snd p)) data_series) @ '');'' @ [nl]"

definition demo_row :: row where
  "demo_row = [(''id'', Str ''1''), (''name'', Str (''O'' @ [sq] @ ''Brien'')),
               (''lon'', NA), (''lat'', Obj ''34.5'')]"

definition scenario_row :: row where
  "scenario_row = [(''id'', Str ''1''), (''lat'', Str ''34.5''), (''lon'', NA)]"

text \<open>The grants for one role, and what it means for a step to send given statements
  with success whenever it returns normally.\<close>

definition user_grants :: "string \<Rightarrow> string list \<Rightarrow> string \<Rightarrow> (stmt \<times> bool) list" where
  "user_grants db tables user =
     [(stmt_grant_connect db user, True), (stmt_grant_usage user, True)]
     @ map (\<lambda>table. (stmt_grant_select table user, True)) tables"

definition on_success ::
  "('a \<Rightarrow> bool) \<Rightarrow> (stmt \<times> bool) list \<Rightarrow> ('db world \<Rightarrow> 'a result \<times> 'db world) \<Rightarrow> bool" where
  "on_success Q sts m =
     (\<forall>w x w'. m w = (Inr x, w') \<longrightarrow>
        Q x \<and> (\<exists>evs. trace w' = trace w @ evs \<and> set sts \<subseteq> set (statements evs)))"

definition same_tables :: "SQL \<Rightarrow> SQL \<Rightarrow> bool" where
  "same_tables self self' =
     (database self' = database self \<and> db_structure self' = db_structure self)"

section \<open>Connections: handles and closing\<close>

lemma fold_max_ge: "a \<le> fold max xs (a::nat)"
proof (induction xs arbitrary: a)
  case Nil
  show ?case by simp
next
  case (Cons x xs)
  have "a \<le> max x a" by simp
  also have "max x a \<le> fold max xs (max x a)" by (rule Cons.IH)
  finally show ?case by simp
qed

lemma fold_max_mem: "x \<in> set xs \<Longrightarrow> x \<le> fold max xs (a::nat)"
proof (induction xs arbitrary: a)
  case Nil
  then show ?case by simp
next
  case (Cons y ys)
  show ?case
  proof (cases "x = y")
    case True
    have "x \<le> max y a" using True by simp
    also have "max y a \<le> fold max ys (max y a)" by (rule fold_max_ge)
    finally show ?thesis by simp
  next
    case False
    with Cons.prems have "x \<in> set ys" by simp
    then show ?thesis using Cons.IH by simp
  qed
qed

lemma new_handle_not_live: "p \<in> set (live w) \<Longrightarrow> fst p \<noteq> new_handle w"
proof
  assume mem: "p \<in> set (live w)" and eq: "fst p = new_handle w"
  from mem have "Suc (fst p) \<in> set (map (\<lambda>p. Suc (fst p)) (live w))" by force
  then have "Suc (fst p) \<le> new_handle w" unfolding new_handle_def by (rule fold_max_mem)
  with eq show False by simp
qed

lemma filter_new_handle: "filter (\<lambda>p. fst p \<noteq> new_handle w) (live w) = live w"
  by (rule filter_True) (simp add: new_handle_not_live)

lemma map_of_filter_handle: "map_of (filter (\<lambda>p. fst p \<noteq> h) xs) h = None"
  by (induction xs) auto

section \<open>db_connection.py: the exit handler\<close>

text \<open>
  C10.  \<open>DatabaseConnection.__exit__\<close> never suppresses an exception.  Once \<open>__enter__\<close>
  has stored a connection, \<open>__exit__\<close> closes it, stores \<open>None\<close> and returns a false
  value; so an exception raised in the body of a \<open>with DatabaseConnection(...)\<close> statement
  reaches the caller, and the connection is closed by then.  In no state at all does
  \<open>__exit__\<close> return a true value.
\<close>

theorem exit_never_suppresses:
  assumes entered: "DatabaseConnection_enter D obj w = (Inr (h, obj1), w1)"
      and raised: "body h w1 = ((locals, Some e), w2)"
  shows "DatabaseConnection_exit obj1 w2 = (Inr (False, obj1\<lparr>dc_conn := None\<rparr>), conn_close h w2)
       \<and> with_connection D obj body w = (Inl e, conn_close h w2)
       \<and> map_of (live (conn_close h w2)) h = None
       \<and> last (trace (conn_close h w2)) = Close h
       \<and> (\<forall>self w' obj' w''. DatabaseConnection_exit self w' \<noteq> (Inr (True, obj'), w''))"
proof -
  from entered have stored: "dc_conn obj1 = Some h"
    by (auto simp: DatabaseConnection_enter_def split: prod.splits sum.splits)
  then have ex: "DatabaseConnection_exit obj1 w2 = (Inr (False, obj1\<lparr>dc_conn := None\<rparr>), conn_close h w2)"
    by (simp add: DatabaseConnection_exit_def)
  have wc: "with_connection D obj body w = (Inl e, conn_close h w2)"
    by (simp add: with_connection_def entered raised ex)
  have closed: "map_of (live (conn_close h w2)) h = None"
    by (simp add: conn_close_def map_of_filter_handle)
  have lst: "last (trace (conn_close h w2)) = Close h"
    by (simp add: conn_close_def)
  have never: "\<forall>self w' obj' w''. DatabaseConnection_exit self w' \<noteq> (Inr (True, obj'), w'')"
    by (auto simp: DatabaseConnection_exit_def split: option.splits)
  from ex wc closed lst never show ?thesis by blast
qed

theorem exit_never_suppresses_witness:
  "fst (with_connection pg demo_connection failing_body (world0 pg_fresh)) = Inl DatabaseError
   \<and> live (snd (with_connection pg demo_connection failing_body (world0 pg_fresh))) = []"
proof -
  let ?ci = "\<lparr>ci_host = ''localhost'', ci_dbname = None, ci_port = ''5432'',
              ci_user = ''postgres'', ci_password = ''secret''\<rparr>"
  let ?w1 = "\<lparr>dbstate = pg_fresh, live = [(0, ?ci)], fresh = Suc 0, trace = [Connect 0 ?ci]\<rparr>"
  let ?w2 = "?w1\<lparr>trace := [Connect 0 ?ci, Execute 0 (Text [CHR 0x00]) False]\<rparr>"
  have entered: "DatabaseConnection_enter pg demo_connection (world0 pg_fresh)
                   = (Inr (0, demo_connection\<lparr>dc_conn := Some 0\<rparr>), ?w1)"
    by (simp add: DatabaseConnection_enter_def demo_connection_def DatabaseConnection_init_def
          psycopg2_connect_def connect_db_server_def pg_def pg_accepts_def world0_def new_handle_def)
  have raised: "failing_body 0 ?w1 = (((), Some DatabaseError), ?w2)"
    by (simp add: failing_body_def no_locals_def cur_execute_def pg_def pg_text_def)
  from exit_never_suppresses [where body = failing_body, OF entered raised]
  have "with_connection pg demo_connection failing_body (world0 pg_fresh)
          = (Inl DatabaseError, conn_close 0 ?w2)"
    by (rule conjunct1 [OF conjunct2])
  then show ?thesis by (simp add: conn_close_def)
qed

section \<open>df_insert_to_database on an empty dataframe\<close>

text \<open>
  C9.  Called with a dataframe of zero rows, \<open>df_insert_to_database\<close> returns an empty
  failure set and leaves the world as it was: no connection is opened, nothing is
  executed, nothing is added to the log.
\<close>

theorem df_insert_empty_dataframe:
  "df_insert_to_database D self [] table_name w = (Inr [], w)"
  by (simp add: df_insert_to_database_def)

section \<open>The functions as sequences of steps\<close>

lemma create_database_seq:
  "create_database D self =
     and_then (returning (admin_connection self None)) (\<lambda>obj.
     and_then (with_connection D obj (create_database_check D self)) (\<lambda>db_exists.
       if db_exists \<noteq> Some True then
         and_then (returning (admin_connection self (Some (database self)))) (\<lambda>obj2.
         and_then (with_connection D obj2 (\<lambda>conn w'. no_locals (cur_execute D conn stmt_create_extension w')))
           (\<lambda>_. returning (Inr ())))
       else returning (Inr ())))"
  unfolding create_database_def and_then_def returning_def prod.case
  by (auto simp: fun_eq_iff split: sum.splits prod.splits)

lemma create_tables_loop_Nil: "create_tables_loop D h [] = returning (Inr ())"
  by (simp add: fun_eq_iff returning_def)

lemma create_tables_loop_seq:
  "create_tables_loop D h ((table, sql_stmt) # rest) =
     and_then (cur_execute D h (stmt_table_exists 48 table)) (\<lambda>rows.
     and_then (returning (fetchone_0 rows)) (\<lambda>table_exists.
       if truthy table_exists then create_tables_loop D h rest
       else and_then (cur_execute D h (Text sql_stmt)) (\<lambda>_. create_tables_loop D h rest)))"
  unfolding and_then_def returning_def prod.case
  by (auto simp: fun_eq_iff split: sum.splits prod.splits)

lemma create_tables_seq:
  "create_tables D self =
     and_then (returning (admin_connection self (Some (database self)))) (\<lambda>obj.
     and_then (with_connection D obj
                 (\<lambda>conn w'. no_locals (create_tables_loop D conn (ds_db_structure (db_structure self)) w')))
       (\<lambda>_. returning (Inr ())))"
  unfolding create_tables_def and_then_def returning_def prod.case by (rule refl)

lemma truncate_db_loop_Nil: "truncate_db_loop D h [] = returning (Inr ())"
  by (simp add: fun_eq_iff returning_def)

lemma truncate_db_loop_seq:
  "truncate_db_loop D h (table # rest) =
     and_then (cur_execute D h (stmt_table_exists 56 table)) (\<lambda>rows.
     and_then (returning (fetchone_0 rows)) (\<lambda>table_exists.
       if truthy table_exists
       then and_then (cur_execute D h (stmt_truncate table)) (\<lambda>_. truncate_db_loop D h rest)
       else truncate_db_loop D h rest))"
  unfolding and_then_def returning_def prod.case
  by (auto simp: fun_eq_iff split: sum.splits prod.splits)

lemma truncate_db_seq:
  "truncate_db D self =
     and_then (returning (admin_connection self (Some (database self)))) (\<lambda>obj.
     and_then (with_connection D obj
                 (\<lambda>conn w'. no_locals (truncate_db_loop D conn (map fst (ds_db_structure (db_structure self))) w')))
       (\<lambda>_. returning (Inr ())))"
  unfolding truncate_db_def and_then_def returning_def prod.case by (rule refl)

lemma execute_batch_seq:
  "execute_batch_sql_commands D self sql_commands =
     and_then (returning (admin_connection self (Some (database self)))) (\<lambda>obj.
     and_then (with_connection D obj
                 (\<lambda>conn w'. no_locals (cur_execute D conn (Text (concat sql_commands)) w')))
       (\<lambda>_. returning (Inr ())))"
  unfolding execute_batch_sql_commands_def and_then_def returning_def Let_def prod.case by (rule refl)

lemma grant_select_loop_Nil: "grant_select_loop D h u [] = returning (Inr ())"
  by (simp add: fun_eq_iff returning_def)

lemma grant_select_loop_seq:
  "grant_select_loop D h u (t # ts) =
     and_then (cur_execute D h (stmt_grant_select t u)) (\<lambda>_. grant_select_loop D h u ts)"
  unfolding and_then_def by (simp add: fun_eq_iff)

lemma grant_schema_body_seq:
  "grant_schema_body D self u h =
     and_then (cur_execute D h (stmt_grant_usage u))
       (\<lambda>_. grant_select_loop D h u (read_only_tables (db_structure self)))"
  unfolding grant_schema_body_def and_then_def by (rule refl)

lemma provision_body_seq:
  "provision_body D self pw u h =
     and_then (cur_execute D h (stmt_role_exists u)) (\<lambda>rows.
     and_then (returning (fetchone_0 rows)) (\<lambda>user_exists.
     and_then (cur_execute D h (if \<not> truthy user_exists then stmt_create_user u (derived_password u pw)
                                 else stmt_role_exists u)) (\<lambda>_.
     and_then (cur_execute D h (stmt_grant_connect (database self) u)) (\<lambda>_.
     and_then (returning (admin_connection self (Some (database self)))) (\<lambda>obj2.
     and_then (with_connection D obj2 (\<lambda>h2 w'. no_locals (grant_schema_body D self u h2 w')))
       (\<lambda>_. returning (Inr ())))))))"
  unfolding provision_body_def and_then_def returning_def Let_def prod.case by (rule refl)

lemma provision_user_seq:
  "provision_user D pw u self =
     and_then (returning (admin_connection self None)) (\<lambda>obj.
     and_then (with_connection D obj (\<lambda>conn w'. no_locals (provision_body D self pw u conn w')))
       (\<lambda>_. returning (set_password u (derived_password u pw) self)))"
  unfolding provision_user_def and_then_def returning_def prod.case by (rule refl)

lemma inner_users_loop_Nil: "inner_users_loop D pw [] self = returning (Inr self)"
  by (simp add: fun_eq_iff returning_def)

lemma inner_users_loop_seq:
  "inner_users_loop D pw (u # us) self =
     and_then (provision_user D pw u self) (\<lambda>self1. inner_users_loop D pw us self1)"
  unfolding and_then_def by (simp add: fun_eq_iff)

lemma outer_users_loop_Nil: "outer_users_loop D pw users [] self = returning (Inr self)"
  by (simp add: fun_eq_iff returning_def)

lemma outer_users_loop_seq:
  "outer_users_loop D pw users (u # us) self =
     and_then (inner_users_loop D pw users self) (\<lambda>self1. outer_users_loop D pw users us self1)"
  unfolding and_then_def by (simp add: fun_eq_iff)

section \<open>Connections are closed by the operation that opens them\<close>

lemma with_connection_refused:
  "\<not> accepts D (dbstate w) (connect_kwargs obj) \<Longrightarrow>
   with_connection D obj body w
     = (Inl OperationalError, w\<lparr>trace := trace w @ [ConnectFailed (connect_kwargs obj)]\<rparr>)"
  by (simp add: with_connection_def DatabaseConnection_enter_def psycopg2_connect_def connect_kwargs_def)

lemma with_connection_accepted:
  "accepts D (dbstate w) (connect_kwargs obj) \<Longrightarrow>
   with_connection D obj body w
     = (case body (new_handle w) (opened w (connect_kwargs obj)) of
          ((locals, raised), w2) \<Rightarrow>
            ((case raised of None \<Rightarrow> Inr locals | Some e \<Rightarrow> Inl e), conn_close (new_handle w) w2))"
  by (simp add: with_connection_def DatabaseConnection_enter_def psycopg2_connect_def connect_kwargs_def
        DatabaseConnection_exit_def opened_def split: prod.splits option.splits)

lemma keeps_liveI: "(\<And>w. live (snd (m w)) = live w) \<Longrightarrow> keeps_live m"
  by (simp add: keeps_live_def)

lemma keeps_liveD: "keeps_live m \<Longrightarrow> m w = (r, w1) \<Longrightarrow> live w1 = live w"
  by (metis keeps_live_def snd_conv)

lemma keeps_and_then:
  assumes m: "keeps_live m" and f: "\<And>x. keeps_live (f x)"
  shows "keeps_live (and_then m f)"
proof (rule keeps_liveI)
  fix w
  obtain r w1 where mw: "m w = (r, w1)" by (metis surj_pair)
  with m have l: "live w1 = live w" by (rule keeps_liveD)
  show "live (snd (and_then m f w)) = live w"
  proof (cases r)
    case (Inl e)
    with mw l show ?thesis by (simp add: and_then_def)
  next
    case (Inr x)
    obtain r2 w2 where fw: "f x w1 = (r2, w2)" by (metis surj_pair)
    with f [of x] have "live w2 = live w1" by (rule keeps_liveD)
    with Inr mw fw l show ?thesis by (simp add: and_then_def)
  qed
qed

lemma keeps_returning: "keeps_live (returning r)"
  by (simp add: keeps_live_def returning_def)

lemma keeps_if: "keeps_live a \<Longrightarrow> keeps_live b \<Longrightarrow> keeps_live (if c then a else b)"
  by simp

lemma keeps_cur_execute: "keeps_live (cur_execute D h q)"
  by (simp add: keeps_live_def cur_execute_def split: option.splits prod.splits)

lemma keeps_conn_rollback: "keeps_live (conn_rollback h)"
  by (simp add: keeps_live_def conn_rollback_def split: option.splits)

lemma snd_no_locals: "snd (no_locals p) = snd p"
  by (cases p; cases "fst p") (auto simp: no_locals_def)

lemma keeps_no_locals: "keeps_live m \<Longrightarrow> keeps_live (\<lambda>w. no_locals (m w))"
  by (simp add: keeps_live_def snd_no_locals)

lemma keeps_with_connection:
  assumes body: "\<And>h. keeps_live (body h)"
  shows "keeps_live (with_connection D obj body)"
proof (rule keeps_liveI)
  fix w
  show "live (snd (with_connection D obj body w)) = live w"
  proof (cases "accepts D (dbstate w) (connect_kwargs obj)")
    case False
    then show ?thesis by (simp add: with_connection_refused)
  next
    case True
    obtain l r w2 where b: "body (new_handle w) (opened w (connect_kwargs obj)) = ((l, r), w2)"
      by (metis surj_pair)
    with body [of "new_handle w"] have "live w2 = live (opened w (connect_kwargs obj))"
      by (rule keeps_liveD)
    then have "live w2 = (new_handle w, connect_kwargs obj) # live w" by (simp add: opened_def)
    then show ?thesis
      by (simp add: with_connection_accepted [OF True] b conn_close_def filter_new_handle)
  qed
qed

lemmas keeps_intros =
  keeps_and_then keeps_returning keeps_if keeps_cur_execute keeps_conn_rollback keeps_no_locals
  keeps_with_connection

lemma keeps_create_database_check: "keeps_live (create_database_check D self h)"
proof (rule keeps_liveI)
  fix w
  obtain r w1 where a: "cur_execute D h stmt_list_databases w = (r, w1)" by (metis surj_pair)
  with keeps_cur_execute have l1: "live w1 = live w" by (rule keeps_liveD)
  obtain r2 w2 where b: "cur_execute D h (stmt_create_database self) w1 = (r2, w2)" by (metis surj_pair)
  with keeps_cur_execute have l2: "live w2 = live w1" by (rule keeps_liveD)
  show "live (snd (create_database_check D self h w)) = live w"
    by (cases r; cases r2) (simp_all add: create_database_check_def a b l1 l2 Let_def)
qed

lemma keeps_create_database: "keeps_live (create_database D self)"
  unfolding create_database_seq by (intro keeps_intros keeps_create_database_check)

lemma keeps_create_tables_loop: "keeps_live (create_tables_loop D h ts)"
proof (induction ts)
  case Nil
  show ?case by (simp add: create_tables_loop_Nil keeps_returning)
next
  case (Cons t ts)
  obtain table sql_stmt where t: "t = (table, sql_stmt)" by (cases t)
  show ?case unfolding t create_tables_loop_seq by (intro keeps_intros Cons.IH)
qed

lemma keeps_create_tables: "keeps_live (create_tables D self)"
  unfolding create_tables_seq by (intro keeps_intros keeps_create_tables_loop)

lemma keeps_truncate_db_loop: "keeps_live (truncate_db_loop D h ts)"
proof (induction ts)
  case Nil
  show ?case by (simp add: truncate_db_loop_Nil keeps_returning)
next
  case (Cons t ts)
  show ?case unfolding truncate_db_loop_seq by (intro keeps_intros Cons.IH)
qed

lemma keeps_truncate_db: "keeps_live (truncate_db D self)"
  unfolding truncate_db_seq by (intro keeps_intros keeps_truncate_db_loop)

lemma keeps_execute_batch: "keeps_live (execute_batch_sql_commands D self cs)"
  unfolding execute_batch_seq by (intro keeps_intros)

lemma keeps_individual_execution: "keeps_live (individual_execution D h df cs fs)"
proof (induction cs arbitrary: fs)
  case Nil
  show ?case by (simp add: keeps_live_def)
next
  case (Cons c cs)
  obtain i cmd where c: "c = (i, cmd)" by (cases c)
  show ?case
  proof (rule keeps_liveI)
    fix w
    obtain r w1 where a: "cur_execute D h (Text cmd) w = (r, w1)" by (metis surj_pair)
    with keeps_cur_execute have l1: "live w1 = live w" by (rule keeps_liveD)
    obtain r2 w2 where b: "conn_rollback h w1 = (r2, w2)" by (metis surj_pair)
    with keeps_conn_rollback have l2: "live w2 = live w1" by (rule keeps_liveD)
    have ih: "\<And>fs' w'. live (snd (individual_execution D h df cs fs' w')) = live w'"
      using Cons.IH by (simp add: keeps_live_def)
    show "live (snd (individual_execution D h df (c # cs) fs w)) = live w"
      by (cases r; cases r2) (simp_all add: c a b l1 l2 ih)
  qed
qed

lemma keeps_df_insert: "keeps_live (df_insert_to_database D self df t)"
proof (rule keeps_liveI)
  fix w
  show "live (snd (df_insert_to_database D self df t w)) = live w"
  proof (cases "generate_commands t df")
    case (Inl e)
    then show ?thesis by (simp add: df_insert_to_database_def)
  next
    case (Inr cmds)
    obtain r w1 where a: "execute_batch_sql_commands D self cmds w = (r, w1)" by (metis surj_pair)
    with keeps_execute_batch have l1: "live w1 = live w" by (rule keeps_liveD)
    have wc: "\<And>obj. live (snd (with_connection D obj
                (\<lambda>conn. individual_execution D conn df (enumerate 0 cmds) []) w1)) = live w1"
    proof -
      fix obj
      have "keeps_live (with_connection D obj (\<lambda>conn. individual_execution D conn df (enumerate 0 cmds) []))"
        by (rule keeps_with_connection) (rule keeps_individual_execution)
      then show "live (snd (with_connection D obj
                (\<lambda>conn. individual_execution D conn df (enumerate 0 cmds) []) w1)) = live w1"
        by (simp add: keeps_live_def)
    qed
    show ?thesis
      by (cases r; cases "admin_connection self (Some (database self))")
         (simp_all add: df_insert_to_database_def Inr a l1 wc)
  qed
qed

lemma keeps_grant_select_loop: "keeps_live (grant_select_loop D h u ts)"
proof (induction ts)
  case Nil
  show ?case by (simp add: grant_select_loop_Nil keeps_returning)
next
  case (Cons t ts)
  show ?case unfolding grant_select_loop_seq by (intro keeps_intros Cons.IH)
qed

lemma keeps_grant_schema_body: "keeps_live (grant_schema_body D self u h)"
  unfolding grant_schema_body_seq by (intro keeps_intros keeps_grant_select_loop)

lemma keeps_provision_body: "keeps_live (provision_body D self pw u h)"
  unfolding provision_body_seq by (intro keeps_intros keeps_grant_schema_body)

lemma keeps_provision_user: "keeps_live (provision_user D pw u self)"
  unfolding provision_user_seq by (intro keeps_intros keeps_provision_body)

lemma keeps_inner_users_loop: "keeps_live (inner_users_loop D pw us self)"
proof (induction us arbitrary: self)
  case Nil
  show ?case by (simp add: inner_users_loop_Nil keeps_returning)
next
  case (Cons u us)
  show ?case unfolding inner_users_loop_seq by (intro keeps_intros keeps_provision_user Cons.IH)
qed

lemma keeps_outer_users_loop: "keeps_live (outer_users_loop D pw users us self)"
proof (induction us arbitrary: self)
  case Nil
  show ?case by (simp add: outer_users_loop_Nil keeps_returning)
next
  case (Cons u us)
  show ?case unfolding outer_users_loop_seq by (intro keeps_intros keeps_inner_users_loop Cons.IH)
qed

lemma keeps_create_read_only_users: "keeps_live (create_read_only_users D pw self)"
  unfolding create_read_only_users_def Let_def by (rule keeps_outer_users_loop)

text \<open>
  C8 (as amended).  Each of the six operations of the class that change the database
  closes every connection it opens before it returns, whether it returns normally or
  raises: the connections open after the call are exactly those open before it.  An
  operation may open more than one connection.
\<close>

theorem connections_closed_on_return:
  "keeps_live (create_database D self)
   \<and> keeps_live (create_tables D self)
   \<and> keeps_live (create_read_only_users D admin_password self)
   \<and> keeps_live (df_insert_to_database D self dataframe table_name)
   \<and> keeps_live (execute_batch_sql_commands D self sql_commands)
   \<and> keeps_live (truncate_db D self)"
  by (intro conjI keeps_create_database keeps_create_tables keeps_create_read_only_users
        keeps_df_insert keeps_execute_batch keeps_truncate_db)

text \<open>
  The claim as stated, that every operation holds exactly one connection, fails:
  on a server without the database, \<open>create_database\<close> opens a server-level connection
  and afterwards a second one to the new database; and \<open>create_read_only_users\<close> opens
  its database-level connection while its server-level connection is still open.
\<close>

theorem create_database_opens_two:
  "connections_opened (trace (snd (create_database pg demo_sql (world0 pg_fresh)))) = 2
   \<and> connections_opened (trace (snd (create_database pg demo_sql (world0 pg_fresh)))) \<noteq> 1
   \<and> peak_open 0 (trace (snd (create_read_only_users pg (Some ''secret'') demo_sql
                                 (world0 pg_ready)))) = 2"
  by code_simp

section \<open>A rejected command ends the provisioning\<close>

lemma clean_append: "clean (a @ b) = (clean a \<and> clean b)"
  by (simp add: clean_def)

lemma well_aborted_clean: "clean a \<Longrightarrow> well_aborted (a @ b) = well_aborted b"
  by (induction a) (auto simp: clean_def)

lemma clean_well_aborted: "clean a \<Longrightarrow> well_aborted a"
  using well_aborted_clean [of a "[]"] by simp

lemma well_aborted_Close: "well_aborted a \<Longrightarrow> well_aborted (a @ [Close h])"
  by (induction a) auto

lemma well_aborted_failed:
  "well_aborted (pre @ ev # post) \<Longrightarrow> failed_execute ev \<Longrightarrow> list_all is_Close post"
proof (induction pre)
  case Nil
  then show ?case by simp
next
  case (Cons a pre)
  show ?case
  proof (cases "failed_execute a")
    case True
    with Cons.prems have "list_all is_Close (pre @ ev # post)" by simp
    then have "is_Close ev" by simp
    with Cons.prems(2) show ?thesis by (cases ev) simp_all
  next
    case False
    with Cons show ?thesis by simp
  qed
qed

lemma disciplinedI:
  "(\<And>w. \<exists>evs. trace (snd (m w)) = trace w @ evs \<and> well_aborted evs
              \<and> (clean evs \<or> raised (fst (m w)) = Some DatabaseError)) \<Longrightarrow> disciplined raised m"
  by (simp add: disciplined_def)

lemma disciplinedE:
  assumes "disciplined raised m" and "m w = (r, w1)"
  obtains evs where "trace w1 = trace w @ evs" and "well_aborted evs"
    and "clean evs \<or> raised r = Some DatabaseError"
  using assms unfolding disciplined_def by (metis fst_conv snd_conv)

lemma disc_and_then:
  assumes m: "disciplined exn_of m" and f: "\<And>x. disciplined exn_of (f x)"
  shows "disciplined exn_of (and_then m f)"
proof (rule disciplinedI)
  fix w
  obtain r w1 where mw: "m w = (r, w1)" by (metis surj_pair)
  from m mw obtain evs1 where t1: "trace w1 = trace w @ evs1" and wa1: "well_aborted evs1"
    and c1: "clean evs1 \<or> exn_of r = Some DatabaseError" by (rule disciplinedE)
  show "\<exists>evs. trace (snd (and_then m f w)) = trace w @ evs \<and> well_aborted evs
             \<and> (clean evs \<or> exn_of (fst (and_then m f w)) = Some DatabaseError)"
  proof (cases r)
    case (Inl e)
    with mw have "and_then m f w = (Inl e, w1)" by (simp add: and_then_def)
    with t1 wa1 c1 Inl show ?thesis by (intro exI [of _ evs1]) (simp add: exn_of_def)
  next
    case (Inr x)
    with c1 have cl: "clean evs1" by (simp add: exn_of_def)
    obtain r2 w2 where fw: "f x w1 = (r2, w2)" by (metis surj_pair)
    from f [of x] fw obtain evs2 where t2: "trace w2 = trace w1 @ evs2" and wa2: "well_aborted evs2"
      and c2: "clean evs2 \<or> exn_of r2 = Some DatabaseError" by (rule disciplinedE)
    have "trace w2 = trace w @ (evs1 @ evs2)" using t1 t2 by simp
    moreover have "well_aborted (evs1 @ evs2)" using cl wa2 by (simp add: well_aborted_clean)
    moreover have "clean (evs1 @ evs2) \<or> exn_of r2 = Some DatabaseError"
      using cl c2 by (auto simp: clean_append)
    ultimately show ?thesis using Inr mw fw by (auto simp: and_then_def)
  qed
qed

lemma disc_returning: "disciplined exn_of (returning r)"
  by (rule disciplinedI) (simp add: returning_def clean_def)

lemma disc_if: "disciplined k a \<Longrightarrow> disciplined k b \<Longrightarrow> disciplined k (if c then a else b)"
  by simp

lemma disc_cur_execute: "disciplined exn_of (cur_execute D h q)"
proof (rule disciplinedI)
  fix w
  show "\<exists>evs. trace (snd (cur_execute D h q w)) = trace w @ evs \<and> well_aborted evs
             \<and> (clean evs \<or> exn_of (fst (cur_execute D h q w)) = Some DatabaseError)"
  proof (cases "map_of (live w) h")
    case None
    then show ?thesis by (simp add: cur_execute_def clean_def)
  next
    case (Some ci)
    show ?thesis
    proof (cases "run D (dbstate w) ci q")
      case None
      with Some show ?thesis by (simp add: cur_execute_def exn_of_def)
    next
      case (Some p)
      with \<open>map_of (live w) h = Some ci\<close> show ?thesis
        by (cases p) (simp add: cur_execute_def clean_def)
    qed
  qed
qed

lemma disc_no_locals: "disciplined exn_of m \<Longrightarrow> disciplined snd (\<lambda>w. no_locals (m w))"
proof (rule disciplinedI)
  fix w
  assume m: "disciplined exn_of m"
  obtain r w1 where mw: "m w = (r, w1)" by (metis surj_pair)
  from m mw obtain evs where "trace w1 = trace w @ evs" "well_aborted evs"
    "clean evs \<or> exn_of r = Some DatabaseError" by (rule disciplinedE)
  then show "\<exists>evs. trace (snd (no_locals (m w))) = trace w @ evs \<and> well_aborted evs
             \<and> (clean evs \<or> snd (fst (no_locals (m w))) = Some DatabaseError)"
    using mw by (cases r) (auto simp: no_locals_def exn_of_def)
qed

lemma disc_with_connection:
  assumes body: "\<And>h. disciplined snd (body h)"
  shows "disciplined exn_of (with_connection D obj body)"
proof (rule disciplinedI)
  fix w
  show "\<exists>evs. trace (snd (with_connection D obj body w)) = trace w @ evs \<and> well_aborted evs
             \<and> (clean evs \<or> exn_of (fst (with_connection D obj body w)) = Some DatabaseError)"
  proof (cases "accepts D (dbstate w) (connect_kwargs obj)")
    case False
    then show ?thesis by (simp add: with_connection_refused clean_def)
  next
    case True
    let ?h = "new_handle w" and ?ci = "connect_kwargs obj"
    obtain l r w2 where b: "body ?h (opened w ?ci) = ((l, r), w2)" by (metis surj_pair)
    from body [of ?h] b obtain evs where t: "trace w2 = trace (opened w ?ci) @ evs"
      and wa: "well_aborted evs" and c: "clean evs \<or> snd (l, r) = Some DatabaseError"
      by (rule disciplinedE)
    let ?evs = "Connect ?h ?ci # evs @ [Close ?h]"
    have "trace (conn_close ?h w2) = trace w @ ?evs" using t by (simp add: conn_close_def opened_def)
    moreover have "well_aborted ?evs" using wa by (simp add: well_aborted_Close)
    moreover have "clean ?evs \<or> r = Some DatabaseError" using c by (auto simp: clean_def)
    ultimately show ?thesis
      by (cases r) (auto simp: with_connection_accepted [OF True] b exn_of_def)
  qed
qed

lemmas disc_intros =
  disc_and_then disc_returning disc_if disc_cur_execute disc_no_locals disc_with_connection

lemma disc_grant_select_loop: "disciplined exn_of (grant_select_loop D h u ts)"
proof (induction ts)
  case Nil
  show ?case by (simp add: grant_select_loop_Nil disc_returning)
next
  case (Cons t ts)
  show ?case unfolding grant_select_loop_seq by (intro disc_intros Cons.IH)
qed

lemma disc_grant_schema_body: "disciplined exn_of (grant_schema_body D self u h)"
  unfolding grant_schema_body_seq by (intro disc_intros disc_grant_select_loop)

lemma disc_provision_body: "disciplined exn_of (provision_body D self pw u h)"
  unfolding provision_body_seq by (intro disc_intros disc_grant_schema_body)

lemma disc_provision_user: "disciplined exn_of (provision_user D pw u self)"
  unfolding provision_user_seq by (intro disc_intros disc_provision_body)

lemma disc_inner_users_loop: "disciplined exn_of (inner_users_loop D pw us self)"
proof (induction us arbitrary: self)
  case Nil
  show ?case by (simp add: inner_users_loop_Nil disc_returning)
next
  case (Cons u us)
  show ?case unfolding inner_users_loop_seq by (intro disc_intros disc_provision_user Cons.IH)
qed

lemma disc_outer_users_loop: "disciplined exn_of (outer_users_loop D pw users us self)"
proof (induction us arbitrary: self)
  case Nil
  show ?case by (simp add: outer_users_loop_Nil disc_returning)
next
  case (Cons u us)
  show ?case unfolding outer_users_loop_seq by (intro disc_intros disc_inner_users_loop Cons.IH)
qed

lemma disc_create_read_only_users: "disciplined exn_of (create_read_only_users D pw self)"
  unfolding create_read_only_users_def Let_def by (rule disc_outer_users_loop)

text \<open>
  C7.  \<open>create_read_only_users\<close> never catches a failure of a statement it sends.  If the
  server rejects a statement, in particular \<open>GRANT CONNECT\<close>, \<open>GRANT USAGE ON SCHEMA\<close> or
  a \<open>GRANT SELECT\<close>, the call raises \<open>DatabaseError\<close> to its caller, and after the
  rejected statement nothing more is sent: the log only shows the open connections
  being closed.
\<close>

theorem grant_failure_propagates:
  assumes run: "create_read_only_users D admin_password self w = (r, w')"
      and failed: "new_events w w' = pre @ Execute h g False # post"
  shows "r = Inl DatabaseError \<and> list_all is_Close post"
proof -
  from disc_create_read_only_users run obtain evs where t: "trace w' = trace w @ evs"
    and wa: "well_aborted evs" and c: "clean evs \<or> exn_of r = Some DatabaseError"
    by (rule disciplinedE)
  from t failed have evs: "evs = pre @ Execute h g False # post" by (simp add: new_events_def)
  then have "\<not> clean evs" by (simp add: clean_def)
  with c have "exn_of r = Some DatabaseError" by simp
  then have "r = Inl DatabaseError" by (cases r) (simp_all add: exn_of_def)
  moreover from wa evs have "list_all is_Close post"
    using well_aborted_failed [of pre "Execute h g False" post] by simp
  ultimately show ?thesis by simp
qed

text \<open>On a server where the table \<open>station\<close> is missing, \<open>GRANT SELECT\<close> on it is rejected
  after the role, \<open>CONNECT\<close> and \<open>USAGE\<close> went through.\<close>

theorem grant_failure_propagates_witness:
  "fst (create_read_only_users pg (Some ''secret'') demo_sql (world0 pg_no_tables)) = Inl DatabaseError
   \<and> new_events (world0 pg_no_tables)
        (snd (create_read_only_users pg (Some ''secret'') demo_sql (world0 pg_no_tables)))
      = [Connect 0 demo_ci_server,
         Execute 0 (stmt_role_exists ''reader'') True,
         Execute 0 (stmt_create_user ''reader'' ''reader_secret'') True,
         Execute 0 (stmt_grant_connect ''afdc_api'' ''reader'') True,
         Connect 1 demo_ci_db,
         Execute 1 (stmt_grant_usage ''reader'') True]
        @ Execute 1 (stmt_grant_select ''station'' ''reader'') False # [Close 1, Close 0]"
proof -
  let ?run = "create_read_only_users pg (Some ''secret'') demo_sql (world0 pg_no_tables)"
  have run: "?run = (fst ?run, snd ?run)" by simp
  have failed: "new_events (world0 pg_no_tables) (snd ?run)
      = [Connect 0 demo_ci_server,
         Execute 0 (stmt_role_exists ''reader'') True,
         Execute 0 (stmt_create_user ''reader'' ''reader_secret'') True,
         Execute 0 (stmt_grant_connect ''afdc_api'' ''reader'') True,
         Connect 1 demo_ci_db,
         Execute 1 (stmt_grant_usage ''reader'') True]
        @ Execute 1 (stmt_grant_select ''station'' ''reader'') False # [Close 1, Close 0]"
    by code_simp
  from grant_failure_propagates [OF run failed] failed show ?thesis by simp
qed

section \<open>create_database\<close>

lemma new_events_append [simp]: "trace w' = trace w @ evs \<Longrightarrow> new_events w w' = evs"
  by (simp add: new_events_def)

lemma stmt_distinct [simp]:
  "stmt_list_databases \<noteq> stmt_create_database self"
  "stmt_list_databases \<noteq> stmt_create_extension"
  "stmt_create_extension \<noteq> stmt_create_database self"
  "stmt_create_database self \<noteq> stmt_create_extension"
  by (simp_all add: stmt_list_databases_def stmt_create_database_def stmt_create_extension_def)

lemma cur_execute_trace:
  "map_of (live w) h = Some ci \<Longrightarrow> cur_execute D h q w = (r, w1)
   \<Longrightarrow> \<exists>ok. trace w1 = trace w @ [Execute h q ok]"
  by (auto simp: cur_execute_def split: option.splits)

lemma succeeded_issued: "succeeded q evs \<Longrightarrow> issued q evs"
proof -
  have "\<And>ev. executes_ok q ev \<Longrightarrow> executes q ev"
  proof -
    fix ev show "executes_ok q ev \<Longrightarrow> executes q ev" by (cases ev) simp_all
  qed
  then show "succeeded q evs \<Longrightarrow> issued q evs"
    unfolding succeeded_def issued_def list_ex_iff by blast
qed

text \<open>
  C5.  Once the server-level connection is open and the catalog of database names has
  been read, \<open>create_database\<close> sends \<open>CREATE DATABASE\<close> exactly when the name is absent
  from the catalog, and it sends \<open>CREATE EXTENSION postgis\<close> exactly when that
  \<open>CREATE DATABASE\<close> succeeded in this same call (the new database accepting the
  connection).  So a call that finds the database sends neither statement.
\<close>

theorem create_database_when_absent:
  assumes admin: "admin_connection self None = Inr obj"
      and admin2: "admin_connection self (Some (database self)) = Inr obj2"
      and acc: "accepts D (dbstate w) (connect_kwargs obj)"
      and catalog: "run D (dbstate w) (connect_kwargs obj) stmt_list_databases = Some (d1, list_databases)"
      and newdb: "\<forall>d2 rs. run D d1 (connect_kwargs obj) (stmt_create_database self) = Some (d2, rs)
                    \<longrightarrow> accepts D d2 (connect_kwargs obj2)"
      and run: "create_database D self w = (r, w')"
  shows "(issued (stmt_create_database self) (new_events w w') \<longleftrightarrow> [S (database self)] \<notin> set list_databases)
       \<and> (issued stmt_create_extension (new_events w w') \<longleftrightarrow> succeeded (stmt_create_database self) (new_events w w'))"
proof -
  let ?h = "new_handle w" and ?ci = "connect_kwargs obj"
  let ?w1 = "opened w ?ci"
  let ?w2 = "?w1\<lparr>dbstate := d1, trace := trace ?w1 @ [Execute ?h stmt_list_databases True]\<rparr>"
  have live1: "map_of (live ?w1) ?h = Some ?ci" by (simp add: opened_def)
  have ex1: "cur_execute D ?h stmt_list_databases ?w1 = (Inr list_databases, ?w2)"
    using catalog live1 by (simp add: cur_execute_def opened_def)
  have live2: "map_of (live ?w2) ?h = Some ?ci" by (simp add: opened_def)
  show ?thesis
  proof (cases "[S (database self)] \<in> set list_databases")
    case True
    have "create_database D self w = (Inr (), conn_close ?h ?w2)"
      using True by (simp add: create_database_def admin with_connection_accepted [OF acc]
            create_database_check_def ex1 Let_def)
    with run have "trace w' = trace w @ [Connect ?h ?ci, Execute ?h stmt_list_databases True, Close ?h]"
      by (auto simp: conn_close_def opened_def)
    then have "new_events w w' = [Connect ?h ?ci, Execute ?h stmt_list_databases True, Close ?h]"
      by simp
    with True show ?thesis by (simp add: issued_def succeeded_def)
  next
    case False
    show ?thesis
    proof (cases "run D d1 ?ci (stmt_create_database self)")
      case None
      let ?w3 = "?w2\<lparr>trace := trace ?w2 @ [Execute ?h (stmt_create_database self) False]\<rparr>"
      have ex2: "cur_execute D ?h (stmt_create_database self) ?w2 = (Inl DatabaseError, ?w3)"
        using None live2 by (simp add: cur_execute_def)
      have "create_database D self w = (Inl DatabaseError, conn_close ?h ?w3)"
        using False by (simp add: create_database_def admin with_connection_accepted [OF acc]
              create_database_check_def ex1 ex2 Let_def)
      with run have "trace w' = trace w @ [Connect ?h ?ci, Execute ?h stmt_list_databases True,
                        Execute ?h (stmt_create_database self) False, Close ?h]"
        by (auto simp: conn_close_def opened_def)
      then have "new_events w w' = [Connect ?h ?ci, Execute ?h stmt_list_databases True,
                        Execute ?h (stmt_create_database self) False, Close ?h]"
        by simp
      with False show ?thesis by (simp add: issued_def succeeded_def)
    next
      case (Some p)
      obtain d2 rs where p: "p = (d2, rs)" by (cases p)
      define w4 where
        "w4 = conn_close ?h (?w2\<lparr>dbstate := d2,
                 trace := trace ?w2 @ [Execute ?h (stmt_create_database self) True]\<rparr>)"
      let ?h2 = "new_handle w4" and ?cd = "connect_kwargs obj2"
      have ex2: "cur_execute D ?h (stmt_create_database self) ?w2
                   = (Inr rs, ?w2\<lparr>dbstate := d2,
                        trace := trace ?w2 @ [Execute ?h (stmt_create_database self) True]\<rparr>)"
        using Some p live2 by (simp add: cur_execute_def)
      have first: "with_connection D obj (create_database_check D self) w = (Inr (Some False), w4)"
        using False unfolding w4_def
        by (simp add: with_connection_accepted [OF acc] create_database_check_def ex1 ex2 Let_def)
      have t4: "trace w4 = trace w @ [Connect ?h ?ci, Execute ?h stmt_list_databases True,
                        Execute ?h (stmt_create_database self) True, Close ?h]"
        by (simp add: w4_def conn_close_def opened_def)
      have acc2: "accepts D (dbstate w4) ?cd"
        using newdb Some p by (simp add: w4_def conn_close_def)
      have live5: "map_of (live (opened w4 ?cd)) ?h2 = Some ?cd" by (simp add: opened_def)
      obtain r5 w6 where ex3: "cur_execute D ?h2 stmt_create_extension (opened w4 ?cd) = (r5, w6)"
        by (metis surj_pair)
      from cur_execute_trace [OF live5 ex3]
      obtain ok where t6: "trace w6 = trace (opened w4 ?cd) @ [Execute ?h2 stmt_create_extension ok]" ..
      have second: "snd (with_connection D obj2
                      (\<lambda>conn w'. no_locals (cur_execute D conn stmt_create_extension w')) w4)
                    = conn_close ?h2 w6"
        by (cases r5) (simp_all add: with_connection_accepted [OF acc2] ex3 no_locals_def)
      obtain q where second': "with_connection D obj2
                      (\<lambda>conn w'. no_locals (cur_execute D conn stmt_create_extension w')) w4
                    = (q, conn_close ?h2 w6)"
        using second by (metis prod.collapse)
      have "snd (create_database D self w) = conn_close ?h2 w6"
        by (cases q) (simp_all add: create_database_def admin admin2 first second')
      with run have "w' = conn_close ?h2 w6" by simp
      then have "trace w' = trace w @ [Connect ?h ?ci, Execute ?h stmt_list_databases True,
                        Execute ?h (stmt_create_database self) True, Close ?h,
                        Connect ?h2 ?cd, Execute ?h2 stmt_create_extension ok, Close ?h2]"
        using t6 t4 by (simp add: conn_close_def opened_def)
      then have "new_events w w' = [Connect ?h ?ci, Execute ?h stmt_list_databases True,
                        Execute ?h (stmt_create_database self) True, Close ?h,
                        Connect ?h2 ?cd, Execute ?h2 stmt_create_extension ok, Close ?h2]"
        by simp
      with False show ?thesis by (simp add: issued_def succeeded_def)
    qed
  qed
qed


text \<open>On a server without the database the first call sends both statements, and the
  call after it sends neither.\<close>

theorem create_database_when_absent_witness:
  "issued (stmt_create_database demo_sql)
     (new_events (world0 pg_fresh) (snd (create_database pg demo_sql (world0 pg_fresh))))
   \<and> issued stmt_create_extension
     (new_events (world0 pg_fresh) (snd (create_database pg demo_sql (world0 pg_fresh))))
   \<and> \<not> issued (stmt_create_database demo_sql)
     (new_events (snd (create_database pg demo_sql (world0 pg_fresh)))
        (snd (create_database pg demo_sql (snd (create_database pg demo_sql (world0 pg_fresh))))))
   \<and> \<not> issued stmt_create_extension
     (new_events (snd (create_database pg demo_sql (world0 pg_fresh)))
        (snd (create_database pg demo_sql (snd (create_database pg demo_sql (world0 pg_fresh))))))"
proof -
  let ?w0 = "world0 pg_fresh"
  let ?w1 = "snd (create_database pg demo_sql ?w0)"
  let ?w2 = "snd (create_database pg demo_sql ?w1)"
  let ?created = "pg_fresh\<lparr>pg_databases := [''postgres'', ''afdc_api'']\<rparr>"
  have admin: "admin_connection demo_sql None = Inr demo_connection" by code_simp
  have admin2: "admin_connection demo_sql (Some (database demo_sql)) = Inr demo_connection_db"
    by code_simp
  have acc0: "accepts pg (dbstate ?w0) (connect_kwargs demo_connection)" by code_simp
  have cat0: "run pg (dbstate ?w0) (connect_kwargs demo_connection) stmt_list_databases
                = Some (pg_fresh, [[S ''postgres'']])" by code_simp
  have cr0: "run pg pg_fresh (connect_kwargs demo_connection) (stmt_create_database demo_sql)
                = Some (?created, [])" by code_simp
  have "accepts pg ?created (connect_kwargs demo_connection_db)" by code_simp
  with cr0 have new0: "\<forall>d2 rs. run pg pg_fresh (connect_kwargs demo_connection)
                          (stmt_create_database demo_sql) = Some (d2, rs)
                        \<longrightarrow> accepts pg d2 (connect_kwargs demo_connection_db)" by simp
  have run0: "create_database pg demo_sql ?w0 = (fst (create_database pg demo_sql ?w0), ?w1)" by simp
  have absent: "[S (database demo_sql)] \<notin> set [[S ''postgres'']]" by code_simp
  note first = create_database_when_absent [OF admin admin2 acc0 cat0 new0 run0]
  have acc1: "accepts pg (dbstate ?w1) (connect_kwargs demo_connection)" by code_simp
  have cat1: "run pg (dbstate ?w1) (connect_kwargs demo_connection) stmt_list_databases
                = Some (dbstate ?w1, [[S ''postgres''], [S ''afdc_api'']])" by code_simp
  have "run pg (dbstate ?w1) (connect_kwargs demo_connection) (stmt_create_database demo_sql) = None"
    by code_simp
  then have new1: "\<forall>d2 rs. run pg (dbstate ?w1) (connect_kwargs demo_connection)
                          (stmt_create_database demo_sql) = Some (d2, rs)
                        \<longrightarrow> accepts pg d2 (connect_kwargs demo_connection_db)" by simp
  have run1: "create_database pg demo_sql ?w1 = (fst (create_database pg demo_sql ?w1), ?w2)" by simp
  have present: "[S (database demo_sql)] \<in> set [[S ''postgres''], [S ''afdc_api'']]" by code_simp
  note second = create_database_when_absent [OF admin admin2 acc1 cat1 new1 run1]
  from first absent have a: "issued (stmt_create_database demo_sql) (new_events ?w0 ?w1)"
    by blast
  from second present have b: "\<not> issued (stmt_create_database demo_sql) (new_events ?w1 ?w2)"
    by blast
  then have "\<not> succeeded (stmt_create_database demo_sql) (new_events ?w1 ?w2)"
    using succeeded_issued by blast
  with second have c: "\<not> issued stmt_create_extension (new_events ?w1 ?w2)" by blast
  have "succeeded (stmt_create_database demo_sql) (new_events ?w0 ?w1)" by code_simp
  with first have d: "issued stmt_create_extension (new_events ?w0 ?w1)" by blast
  from a b c d show ?thesis by blast
qed

section \<open>df_insert_to_database: batch first, then row by row\<close>

lemma generate_commands_length:
  "generate_commands t df = Inr cmds \<Longrightarrow> length cmds = length df"
  by (induction df arbitrary: cmds) (auto split: sum.splits)

lemma failure_set_Cons:
  "failure_set (r # rs) (ok # oks) = (if ok then failure_set rs oks else r # failure_set rs oks)"
  by (simp add: failure_set_def)

lemma individual_outcomes_length: "length (individual_outcomes D ci d cs) = length cs"
  by (induction cs arbitrary: d) (auto split: option.splits)

lemma individual_execution_spec:
  assumes "map_of (live w) h = Some ci" and "n + length cs \<le> length df"
  shows "individual_execution D h df (enumerate n cs) fs w
           = ((fs @ failure_set (drop n df) (individual_outcomes D ci (dbstate w) cs), None),
              w\<lparr>dbstate := state_after D ci (dbstate w) cs,
                trace := trace w @ fallback_events h (zip cs (individual_outcomes D ci (dbstate w) cs))\<rparr>)"
  using assms
proof (induction cs arbitrary: n fs w)
  case Nil
  then show ?case by (simp add: failure_set_def)
next
  case (Cons c cs)
  from Cons.prems have n: "n < length df" and n': "Suc n + length cs \<le> length df" by simp_all
  from n have dr: "drop n df = df ! n # drop (Suc n) df" by (simp add: Cons_nth_drop_Suc)
  show ?case
  proof (cases "run D (dbstate w) ci (Text c)")
    case None
    let ?w1 = "w\<lparr>trace := trace w @ [Execute h (Text c) False]\<rparr>"
    let ?w2 = "?w1\<lparr>trace := trace ?w1 @ [Rollback h]\<rparr>"
    have ex: "cur_execute D h (Text c) w = (Inl DatabaseError, ?w1)"
      using None Cons.prems(1) by (simp add: cur_execute_def)
    have rb: "conn_rollback h ?w1 = (Inr (), ?w2)"
      using Cons.prems(1) by (simp add: conn_rollback_def)
    have l2: "map_of (live ?w2) h = Some ci" using Cons.prems(1) by simp
    show ?thesis
      using Cons.IH [OF l2 n', of "fs @ [df ! n]"] None n
      by (simp add: ex rb dr failure_set_Cons)
  next
    case (Some p)
    obtain d' rows where p: "p = (d', rows)" by (cases p)
    let ?w1 = "w\<lparr>dbstate := d', trace := trace w @ [Execute h (Text c) True]\<rparr>"
    have ex: "cur_execute D h (Text c) w = (Inr rows, ?w1)"
      using Some p Cons.prems(1) by (simp add: cur_execute_def)
    have l1: "map_of (live ?w1) h = Some ci" using Cons.prems(1) by simp
    show ?thesis
      using Cons.IH [OF l1 n', of fs] Some p
      by (simp add: ex dr failure_set_Cons)
  qed
qed

lemma failure_set_member:
  "length oks = length df \<Longrightarrow>
   (row \<in> set (failure_set df oks)) = (\<exists>i < length df. df ! i = row \<and> \<not> oks ! i)"
proof -
  assume len: "length oks = length df"
  have "(row \<in> set (failure_set df oks)) = (\<exists>ok. (row, ok) \<in> set (zip df oks) \<and> \<not> ok)"
    by (force simp: failure_set_def)
  also have "\<dots> = (\<exists>i < length df. df ! i = row \<and> \<not> oks ! i)"
    using len by (auto simp: in_set_zip)
  finally show ?thesis .
qed

lemma failure_set_single:
  "length oks = length df \<Longrightarrow> k < length df \<Longrightarrow> (\<forall>i < length df. oks ! i = (i \<noteq> k))
   \<Longrightarrow> failure_set df oks = [df ! k]"
proof (induction df arbitrary: oks k)
  case Nil
  then show ?case by simp
next
  case (Cons r rs)
  from Cons.prems(1) obtain ok oks' where oks: "oks = ok # oks'" and len: "length oks' = length rs"
    by (cases oks) auto
  show ?case
  proof (cases k)
    case 0
    from Cons.prems(3) [rule_format, of 0] oks 0 have "\<not> ok" by simp
    moreover have "\<forall>i < length rs. oks' ! i"
    proof (intro allI impI)
      fix i assume "i < length rs"
      with Cons.prems(3) [rule_format, of "Suc i"] oks 0 show "oks' ! i" by simp
    qed
    then have "failure_set rs oks' = []"
      using len by (auto simp: failure_set_def filter_empty_conv in_set_zip)
    ultimately show ?thesis using oks 0 by (simp add: failure_set_Cons)
  next
    case (Suc k')
    from Cons.prems(3) [rule_format, of 0] oks Suc have "ok" by simp
    moreover have "\<forall>i < length rs. oks' ! i = (i \<noteq> k')"
    proof (intro allI impI)
      fix i assume "i < length rs"
      with Cons.prems(3) [rule_format, of "Suc i"] oks Suc show "oks' ! i = (i \<noteq> k')" by simp
    qed
    moreover from Cons.prems(2) Suc have "k' < length rs" by simp
    ultimately show ?thesis using Cons.IH [OF len] oks Suc by (simp add: failure_set_Cons)
  qed
qed




section \<open>create_read_only_users: running it again\<close>

lemma statements_append: "statements (a @ b) = statements a @ statements b"
  by (induction a rule: statements.induct) simp_all

lemma performsI:
  "m w = (Inr x, w') \<Longrightarrow> Q x \<Longrightarrow> dbstate w' = dbstate w \<Longrightarrow> live w' = live w
   \<Longrightarrow> trace w' = trace w @ evs \<Longrightarrow> statements evs = sts \<Longrightarrow> performs Q sts m w"
  unfolding performs_def by blast

lemma performsE:
  assumes "performs Q sts m w"
  obtains x w' evs where "m w = (Inr x, w')" and "Q x" and "dbstate w' = dbstate w"
    and "live w' = live w" and "trace w' = trace w @ evs" and "statements evs = sts"
  using assms unfolding performs_def by blast

lemma performs_weaken: "performs Q sts m w \<Longrightarrow> (\<And>x. Q x \<Longrightarrow> Q' x) \<Longrightarrow> performs Q' sts m w"
  unfolding performs_def by blast

lemma performs_returning: "Q x \<Longrightarrow> performs Q [] (returning (Inr x)) w"
  by (rule performsI [where evs = "[]"]) (simp_all add: returning_def)

lemma performs_and_then:
  assumes m: "performs Q1 a m w"
      and f: "\<And>x w1. Q1 x \<Longrightarrow> dbstate w1 = dbstate w \<Longrightarrow> live w1 = live w \<Longrightarrow> performs Q2 b (f x) w1"
  shows "performs Q2 (a @ b) (and_then m f) w"
proof -
  from m obtain x w1 evs1 where mw: "m w = (Inr x, w1)" and q: "Q1 x" and d1: "dbstate w1 = dbstate w"
    and l1: "live w1 = live w" and t1: "trace w1 = trace w @ evs1" and s1: "statements evs1 = a"
    by (rule performsE)
  from f [OF q d1 l1] obtain y w2 evs2 where fw: "f x w1 = (Inr y, w2)" and q2: "Q2 y"
    and d2: "dbstate w2 = dbstate w1" and l2: "live w2 = live w1"
    and t2: "trace w2 = trace w1 @ evs2" and s2: "statements evs2 = b"
    by (rule performsE)
  show ?thesis
  proof (rule performsI [where evs = "evs1 @ evs2"])
    show "and_then m f w = (Inr y, w2)" by (simp add: and_then_def mw fw)
    show "Q2 y" by (rule q2)
    show "dbstate w2 = dbstate w" using d1 d2 by simp
    show "live w2 = live w" using l1 l2 by simp
    show "trace w2 = trace w @ evs1 @ evs2" using t1 t2 by simp
    show "statements (evs1 @ evs2) = a @ b" using s1 s2 by (simp add: statements_append)
  qed
qed

lemma performs_cur_execute:
  assumes lv: "map_of (live w) h = Some ci" and noop: "no_op D (dbstate w) ci q"
  shows "performs (\<lambda>rows. \<exists>d'. run D (dbstate w) ci q = Some (d', rows)) [(q, True)] (cur_execute D h q) w"
proof -
  from noop obtain rows where r: "run D (dbstate w) ci q = Some (dbstate w, rows)"
    by (auto simp: no_op_def split: option.splits)
  show ?thesis
  proof (rule performsI [where evs = "[Execute h q True]"])
    show "cur_execute D h q w = (Inr rows, w\<lparr>dbstate := dbstate w, trace := trace w @ [Execute h q True]\<rparr>)"
      using lv r by (simp add: cur_execute_def)
    show "\<exists>d'. run D (dbstate w) ci q = Some (d', rows)" using r by blast
  qed simp_all
qed

lemma performs_with_connection:
  assumes acc: "accepts D (dbstate w) (connect_kwargs obj)"
      and body: "performs Q sts (m (new_handle w)) (opened w (connect_kwargs obj))"
  shows "performs (\<lambda>_. True) sts (with_connection D obj (\<lambda>h w'. no_locals (m h w'))) w"
proof -
  let ?h = "new_handle w" and ?ci = "connect_kwargs obj"
  from body obtain x w2 evs where mw: "m ?h (opened w ?ci) = (Inr x, w2)"
    and d2: "dbstate w2 = dbstate (opened w ?ci)" and l2: "live w2 = live (opened w ?ci)"
    and t2: "trace w2 = trace (opened w ?ci) @ evs" and s2: "statements evs = sts"
    by (rule performsE)
  show ?thesis
  proof (rule performsI [where evs = "Connect ?h ?ci # evs @ [Close ?h]"])
    show "with_connection D obj (\<lambda>h w'. no_locals (m h w')) w = (Inr (), conn_close ?h w2)"
      by (simp add: with_connection_accepted [OF acc] mw no_locals_def)
    show "dbstate (conn_close ?h w2) = dbstate w" using d2 by (simp add: conn_close_def opened_def)
    show "live (conn_close ?h w2) = live w"
      using l2 by (simp add: conn_close_def opened_def filter_new_handle)
    show "trace (conn_close ?h w2) = trace w @ Connect ?h ?ci # evs @ [Close ?h]"
      using t2 by (simp add: conn_close_def opened_def)
    show "statements (Connect ?h ?ci # evs @ [Close ?h]) = sts"
      using s2 by (simp add: statements_append)
  qed simp
qed

lemma performs_grant_select_loop:
  fixes w :: "'db world"
  assumes "map_of (live w) h = Some ci"
      and "list_all (\<lambda>t. no_op D (dbstate w) ci (stmt_grant_select t u)) ts"
  shows "performs (\<lambda>_. True) (map (\<lambda>t. (stmt_grant_select t u, True)) ts) (grant_select_loop D h u ts) w"
  using assms
proof (induction ts arbitrary: w)
  case Nil
  show ?case by (simp add: grant_select_loop_Nil performs_returning)
next
  case (Cons t ts)
  from Cons.prems have noop: "no_op D (dbstate w) ci (stmt_grant_select t u)"
    and rest: "list_all (\<lambda>t. no_op D (dbstate w) ci (stmt_grant_select t u)) ts" by simp_all
  have "performs (\<lambda>_. True) ([(stmt_grant_select t u, True)] @ map (\<lambda>t. (stmt_grant_select t u, True)) ts)
          (and_then (cur_execute D h (stmt_grant_select t u)) (\<lambda>_. grant_select_loop D h u ts)) w"
  proof (rule performs_and_then [OF performs_cur_execute [OF Cons.prems(1) noop]])
    fix x and w1 :: "'db world"
    assume "dbstate w1 = dbstate w" and "live w1 = live w"
    with Cons.prems(1) rest
    show "performs (\<lambda>_. True) (map (\<lambda>t. (stmt_grant_select t u, True)) ts) (grant_select_loop D h u ts) w1"
      by (intro Cons.IH) simp_all
  qed
  then show ?case by (simp add: grant_select_loop_seq)
qed

lemma performs_grant_schema_body:
  fixes w :: "'db world"
  assumes lv: "map_of (live w) h = Some ci"
      and usage: "no_op D (dbstate w) ci (stmt_grant_usage u)"
      and sel: "list_all (\<lambda>t. no_op D (dbstate w) ci (stmt_grant_select t u)) (read_only_tables (db_structure self))"
  shows "performs (\<lambda>_. True)
           ((stmt_grant_usage u, True) # map (\<lambda>t. (stmt_grant_select t u, True)) (read_only_tables (db_structure self)))
           (grant_schema_body D self u h) w"
proof -
  have "performs (\<lambda>_. True)
           ([(stmt_grant_usage u, True)] @ map (\<lambda>t. (stmt_grant_select t u, True)) (read_only_tables (db_structure self)))
           (and_then (cur_execute D h (stmt_grant_usage u))
              (\<lambda>_. grant_select_loop D h u (read_only_tables (db_structure self)))) w"
  proof (rule performs_and_then [OF performs_cur_execute [OF lv usage]])
    fix x and w1 :: "'db world"
    assume "dbstate w1 = dbstate w" and "live w1 = live w"
    with lv sel
    show "performs (\<lambda>_. True) (map (\<lambda>t. (stmt_grant_select t u, True)) (read_only_tables (db_structure self)))
            (grant_select_loop D h u (read_only_tables (db_structure self))) w1"
      by (intro performs_grant_select_loop) simp_all
  qed
  then show ?thesis by (simp add: grant_schema_body_seq)
qed


lemma performs_provision_body:
  fixes w :: "'db world"
  assumes lv: "map_of (live w) h = Some ci"
      and admin2: "admin_connection self (Some (database self)) = Inr obj2"
      and acc2: "accepts D (dbstate w) (connect_kwargs obj2)"
      and prov: "already_provisioned D self (dbstate w) ci (connect_kwargs obj2) u"
  shows "performs (\<lambda>_. True) (user_statements self u) (provision_body D self pw u h) w"
proof -
  let ?cd = "connect_kwargs obj2" and ?ro = "read_only_tables (db_structure self)"
  from prov have role: "answers_true D (dbstate w) ci (stmt_role_exists u)"
    and conn: "no_op D (dbstate w) ci (stmt_grant_connect (database self) u)"
    and usage: "no_op D (dbstate w) ?cd (stmt_grant_usage u)"
    and sel: "list_all (\<lambda>t. no_op D (dbstate w) ?cd (stmt_grant_select t u)) ?ro"
    by (simp_all add: already_provisioned_def)
  from role have role_noop: "no_op D (dbstate w) ci (stmt_role_exists u)"
    by (auto simp: answers_true_def no_op_def split: option.splits)
  have truthy_rows: "\<And>d' rows. run D (dbstate w) ci (stmt_role_exists u) = Some (d', rows)
                      \<Longrightarrow> \<exists>c. fetchone_0 rows = Inr c \<and> truthy c"
    using role by (auto simp: answers_true_def split: sum.splits)
  have "performs (\<lambda>_. True)
          ([(stmt_role_exists u, True)] @ [] @ [(stmt_role_exists u, True)]
           @ [(stmt_grant_connect (database self) u, True)] @ []
           @ ((stmt_grant_usage u, True) # map (\<lambda>t. (stmt_grant_select t u, True)) ?ro) @ [])
          (provision_body D self pw u h) w"
    unfolding provision_body_seq
  proof (rule performs_and_then [OF performs_cur_execute [OF lv role_noop]])
    fix rows and w1 :: "'db world"
    assume "\<exists>d'. run D (dbstate w) ci (stmt_role_exists u) = Some (d', rows)"
      and d1: "dbstate w1 = dbstate w" and l1: "live w1 = live w"
    then obtain c where c: "fetchone_0 rows = Inr c" and tc: "truthy c" using truthy_rows by blast
    have lv1: "map_of (live w1) h = Some ci" using lv l1 by simp
    show "performs (\<lambda>_. True)
            ([] @ [(stmt_role_exists u, True)] @ [(stmt_grant_connect (database self) u, True)] @ []
             @ ((stmt_grant_usage u, True) # map (\<lambda>t. (stmt_grant_select t u, True)) ?ro) @ [])
            (and_then (returning (fetchone_0 rows)) (\<lambda>user_exists.
             and_then (cur_execute D h (if \<not> truthy user_exists
                                        then stmt_create_user u (derived_password u pw)
                                        else stmt_role_exists u)) (\<lambda>_.
             and_then (cur_execute D h (stmt_grant_connect (database self) u)) (\<lambda>_.
             and_then (returning (admin_connection self (Some (database self)))) (\<lambda>obj2.
             and_then (with_connection D obj2 (\<lambda>h2 w'. no_locals (grant_schema_body D self u h2 w')))
               (\<lambda>_. returning (Inr ()))))))) w1"
      unfolding c
    proof (rule performs_and_then [OF performs_returning [where Q = "\<lambda>x. x = c"]])
      show "c = c" ..
    next
      fix x and w2 :: "'db world"
      assume x: "x = c" and d2: "dbstate w2 = dbstate w1" and l2: "live w2 = live w1"
      have lv2: "map_of (live w2) h = Some ci" using lv1 l2 by simp
      have noop2: "no_op D (dbstate w2) ci (stmt_role_exists u)" using role_noop d1 d2 by simp
      show "performs (\<lambda>_. True)
              ([(stmt_role_exists u, True)] @ [(stmt_grant_connect (database self) u, True)] @ []
               @ ((stmt_grant_usage u, True) # map (\<lambda>t. (stmt_grant_select t u, True)) ?ro) @ [])
              (and_then (cur_execute D h (if \<not> truthy x
                                          then stmt_create_user u (derived_password u pw)
                                          else stmt_role_exists u)) (\<lambda>_.
               and_then (cur_execute D h (stmt_grant_connect (database self) u)) (\<lambda>_.
               and_then (returning (admin_connection self (Some (database self)))) (\<lambda>obj2.
               and_then (with_connection D obj2 (\<lambda>h2 w'. no_locals (grant_schema_body D self u h2 w')))
                 (\<lambda>_. returning (Inr ())))))) w2"
        unfolding x using tc
      proof (simp only: if_False not_True_eq_False simp_thms)
        show "performs (\<lambda>_. True)
              ([(stmt_role_exists u, True)] @ [(stmt_grant_connect (database self) u, True)] @ []
               @ ((stmt_grant_usage u, True) # map (\<lambda>t. (stmt_grant_select t u, True)) ?ro) @ [])
              (and_then (cur_execute D h (stmt_role_exists u)) (\<lambda>_.
               and_then (cur_execute D h (stmt_grant_connect (database self) u)) (\<lambda>_.
               and_then (returning (admin_connection self (Some (database self)))) (\<lambda>obj2.
               and_then (with_connection D obj2 (\<lambda>h2 w'. no_locals (grant_schema_body D self u h2 w')))
                 (\<lambda>_. returning (Inr ())))))) w2"
        proof (rule performs_and_then [OF performs_cur_execute [OF lv2 noop2]])
          fix y and w3 :: "'db world"
          assume d3: "dbstate w3 = dbstate w2" and l3: "live w3 = live w2"
          have lv3: "map_of (live w3) h = Some ci" using lv2 l3 by simp
          have noop3: "no_op D (dbstate w3) ci (stmt_grant_connect (database self) u)"
            using conn d1 d2 d3 by simp
          show "performs (\<lambda>_. True)
                  ([(stmt_grant_connect (database self) u, True)] @ []
                   @ ((stmt_grant_usage u, True) # map (\<lambda>t. (stmt_grant_select t u, True)) ?ro) @ [])
                  (and_then (cur_execute D h (stmt_grant_connect (database self) u)) (\<lambda>_.
                   and_then (returning (admin_connection self (Some (database self)))) (\<lambda>obj2.
                   and_then (with_connection D obj2 (\<lambda>h2 w'. no_locals (grant_schema_body D self u h2 w')))
                     (\<lambda>_. returning (Inr ()))))) w3"
          proof (rule performs_and_then [OF performs_cur_execute [OF lv3 noop3]])
            fix z and w4 :: "'db world"
            assume d4: "dbstate w4 = dbstate w3" and l4: "live w4 = live w3"
            have dw: "dbstate w4 = dbstate w" using d1 d2 d3 d4 by simp
            show "performs (\<lambda>_. True)
                    ([] @ ((stmt_grant_usage u, True) # map (\<lambda>t. (stmt_grant_select t u, True)) ?ro) @ [])
                    (and_then (returning (admin_connection self (Some (database self)))) (\<lambda>obj2.
                     and_then (with_connection D obj2 (\<lambda>h2 w'. no_locals (grant_schema_body D self u h2 w')))
                       (\<lambda>_. returning (Inr ())))) w4"
              unfolding admin2
            proof (rule performs_and_then [OF performs_returning [where Q = "\<lambda>x. x = obj2"]])
              show "obj2 = obj2" ..
            next
              fix o2 and w5 :: "'db world"
              assume o2: "o2 = obj2" and d5: "dbstate w5 = dbstate w4" and l5: "live w5 = live w4"
              have acc5: "accepts D (dbstate w5) ?cd" using acc2 dw d5 by simp
              let ?w6 = "opened w5 ?cd"
              have lv6: "map_of (live ?w6) (new_handle w5) = Some ?cd" by (simp add: opened_def)
              have d6: "dbstate ?w6 = dbstate w" using dw d5 by (simp add: opened_def)
              have inner: "performs (\<lambda>_. True)
                      ((stmt_grant_usage u, True) # map (\<lambda>t. (stmt_grant_select t u, True)) ?ro)
                      (grant_schema_body D self u (new_handle w5)) ?w6"
                using usage sel by (intro performs_grant_schema_body [OF lv6]) (simp_all add: d6)
              show "performs (\<lambda>_. True)
                      (((stmt_grant_usage u, True) # map (\<lambda>t. (stmt_grant_select t u, True)) ?ro) @ [])
                      (and_then (with_connection D o2 (\<lambda>h2 w'. no_locals (grant_schema_body D self u h2 w')))
                         (\<lambda>_. returning (Inr ()))) w5"
                unfolding o2
                by (rule performs_and_then
                      [OF performs_with_connection [where m = "grant_schema_body D self u", OF acc5 inner]])
                   (rule performs_returning, simp)
            qed
          qed
        qed
      qed
    qed
  qed
  then show ?thesis by (simp add: user_statements_def)
qed


lemma same_setup_refl: "same_setup self self"
  by (simp add: same_setup_def)

lemma same_setup_trans: "same_setup a b \<Longrightarrow> same_setup b c \<Longrightarrow> same_setup a c"
  by (simp add: same_setup_def)

lemma admin_connection_same_setup:
  "same_setup self self' \<Longrightarrow> admin_connection self' db = admin_connection self db"
  by (simp add: same_setup_def admin_connection_def)

lemma map_of_set_password:
  "k \<noteq> u \<Longrightarrow>
   map_of (map (\<lambda>(k, c). if k = u then (k, c\<lparr>cfg_password := Some p\<rparr>) else (k, c)) cfgs) k
     = map_of cfgs k"
  by (induction cfgs) auto

lemma map_fst_set_password:
  "map fst (map (\<lambda>(k, c). if k = u then (k, c\<lparr>cfg_password := Some p\<rparr>) else (k, c)) cfgs)
     = map fst cfgs"
  by (induction cfgs) auto

lemma set_password_same_setup:
  assumes key: "u \<in> fst ` set (db_configs self)" and nonadmin: "u \<noteq> admin_user"
  shows "\<exists>self'. set_password u (derived_password u pw) self = Inr self' \<and> same_setup self self'"
proof -
  from key obtain c where "map_of (db_configs self) u = Some c"
    by (metis map_of_eq_None_iff not_Some_eq)
  then show ?thesis
    using nonadmin map_fst_set_password [of u "derived_password u pw" "db_configs self"]
    by (simp add: set_password_def same_setup_def map_of_set_password)
qed

lemma performs_provision_user:
  fixes w :: "'db world"
  assumes admin: "admin_connection self None = Inr obj"
      and admin2: "admin_connection self (Some (database self)) = Inr obj2"
      and acc: "accepts D (dbstate w) (connect_kwargs obj)"
      and acc2: "accepts D (dbstate w) (connect_kwargs obj2)"
      and prov: "already_provisioned D self (dbstate w) (connect_kwargs obj) (connect_kwargs obj2) u"
      and key: "u \<in> fst ` set (db_configs self)" and nonadmin: "u \<noteq> admin_user"
  shows "performs (same_setup self) (user_statements self u) (provision_user D pw u self) w"
proof -
  let ?ci = "connect_kwargs obj"
  from set_password_same_setup [OF key nonadmin]
  obtain self' where sp: "set_password u (derived_password u pw) self = Inr self'"
    and ss: "same_setup self self'" by blast
  have lv: "map_of (live (opened w ?ci)) (new_handle w) = Some ?ci" by (simp add: opened_def)
  have body: "performs (\<lambda>_. True) (user_statements self u)
                (provision_body D self pw u (new_handle w)) (opened w ?ci)"
    using acc2 prov by (intro performs_provision_body [OF lv admin2]) (simp_all add: opened_def)
  have "performs (same_setup self) ([] @ user_statements self u @ [])
          (and_then (returning (admin_connection self None)) (\<lambda>obj.
           and_then (with_connection D obj (\<lambda>conn w'. no_locals (provision_body D self pw u conn w')))
             (\<lambda>_. returning (set_password u (derived_password u pw) self)))) w"
    unfolding admin sp
  proof (rule performs_and_then [OF performs_returning [where Q = "\<lambda>x. x = obj"]])
    show "obj = obj" ..
  next
    fix x and w1 :: "'db world"
    assume x: "x = obj" and d1: "dbstate w1 = dbstate w" and l1: "live w1 = live w"
    have acc1: "accepts D (dbstate w1) ?ci" using acc d1 by simp
    have lv1: "map_of (live (opened w1 ?ci)) (new_handle w1) = Some ?ci" by (simp add: opened_def)
    have body1: "performs (\<lambda>_. True) (user_statements self u)
                (provision_body D self pw u (new_handle w1)) (opened w1 ?ci)"
      using acc2 prov d1 by (intro performs_provision_body [OF lv1 admin2]) (simp_all add: opened_def)
    show "performs (same_setup self) (user_statements self u @ [])
            (and_then (with_connection D x (\<lambda>conn w'. no_locals (provision_body D self pw u conn w')))
               (\<lambda>_. returning (Inr self'))) w1"
      unfolding x
      by (rule performs_and_then
            [OF performs_with_connection [where m = "provision_body D self pw u", OF acc1 body1]])
         (rule performs_returning, rule ss)
  qed
  then show ?thesis by (simp add: provision_user_seq)
qed

lemma already_provisioned_same_setup:
  "same_setup self self' \<Longrightarrow> already_provisioned D self' d cs cd u = already_provisioned D self d cs cd u"
  by (simp add: same_setup_def already_provisioned_def)

lemma user_statements_same_setup:
  "same_setup self self' \<Longrightarrow> user_statements self' = user_statements self"
  by (simp add: same_setup_def user_statements_def fun_eq_iff)

lemma performs_inner_users_loop:
  fixes w :: "'db world"
  assumes admin: "admin_connection self None = Inr obj"
      and admin2: "admin_connection self (Some (database self)) = Inr obj2"
      and acc: "accepts D (dbstate w) (connect_kwargs obj)"
      and acc2: "accepts D (dbstate w) (connect_kwargs obj2)"
      and users: "\<forall>u \<in> set us. u \<in> fst ` set (db_configs self) \<and> u \<noteq> admin_user
                   \<and> already_provisioned D self (dbstate w) (connect_kwargs obj) (connect_kwargs obj2) u"
  shows "performs (same_setup self) (concat (map (user_statements self) us))
           (inner_users_loop D pw us self) w"
  using assms
proof (induction us arbitrary: self w)
  case Nil
  show ?case by (simp add: inner_users_loop_Nil performs_returning same_setup_refl)
next
  case (Cons u us)
  from Cons.prems(5) have key: "u \<in> fst ` set (db_configs self)" and nonadmin: "u \<noteq> admin_user"
    and prov: "already_provisioned D self (dbstate w) (connect_kwargs obj) (connect_kwargs obj2) u"
    by simp_all
  have "performs (same_setup self) (user_statements self u @ concat (map (user_statements self) us))
          (and_then (provision_user D pw u self) (\<lambda>self1. inner_users_loop D pw us self1)) w"
  proof (rule performs_and_then
           [OF performs_provision_user [OF Cons.prems(1) Cons.prems(2) Cons.prems(3) Cons.prems(4) prov key nonadmin]])
    fix self1 and w1 :: "'db world"
    assume ss: "same_setup self self1" and d1: "dbstate w1 = dbstate w" and l1: "live w1 = live w"
    have a1: "admin_connection self1 None = Inr obj"
      using Cons.prems(1) by (simp add: admin_connection_same_setup [OF ss])
    have db: "database self1 = database self" using ss by (simp add: same_setup_def)
    have a2: "admin_connection self1 (Some (database self1)) = Inr obj2"
      using Cons.prems(2) by (simp add: admin_connection_same_setup [OF ss] db)
    have keys: "fst ` set (db_configs self1) = fst ` set (db_configs self)"
      using ss by (metis same_setup_def set_map)
    have u1: "\<forall>u \<in> set us. u \<in> fst ` set (db_configs self1) \<and> u \<noteq> admin_user
                \<and> already_provisioned D self1 (dbstate w1) (connect_kwargs obj) (connect_kwargs obj2) u"
      using Cons.prems(5) by (simp add: keys d1 already_provisioned_same_setup [OF ss])
    have "performs (same_setup self1) (concat (map (user_statements self1) us))
            (inner_users_loop D pw us self1) w1"
      using Cons.prems(3) Cons.prems(4) by (intro Cons.IH [OF a1 a2 _ _ u1]) (simp_all add: d1)
    then have "performs (same_setup self1) (concat (map (user_statements self) us))
            (inner_users_loop D pw us self1) w1"
      by (simp add: user_statements_same_setup [OF ss])
    then show "performs (same_setup self) (concat (map (user_statements self) us))
            (inner_users_loop D pw us self1) w1"
      by (rule performs_weaken) (rule same_setup_trans [OF ss])
  qed
  then show ?case by (simp add: inner_users_loop_seq)
qed

lemma performs_outer_users_loop:
  fixes w :: "'db world"
  assumes admin: "admin_connection self None = Inr obj"
      and admin2: "admin_connection self (Some (database self)) = Inr obj2"
      and acc: "accepts D (dbstate w) (connect_kwargs obj)"
      and acc2: "accepts D (dbstate w) (connect_kwargs obj2)"
      and users: "\<forall>u \<in> set users. u \<in> fst ` set (db_configs self) \<and> u \<noteq> admin_user
                   \<and> already_provisioned D self (dbstate w) (connect_kwargs obj) (connect_kwargs obj2) u"
  shows "performs (same_setup self) (concat (map (\<lambda>_. concat (map (user_statements self) users)) us))
           (outer_users_loop D pw users us self) w"
  using assms
proof (induction us arbitrary: self w)
  case Nil
  show ?case by (simp add: outer_users_loop_Nil performs_returning same_setup_refl)
next
  case (Cons u us)
  have "performs (same_setup self)
          (concat (map (user_statements self) users)
           @ concat (map (\<lambda>_. concat (map (user_statements self) users)) us))
          (and_then (inner_users_loop D pw users self) (\<lambda>self1. outer_users_loop D pw users us self1)) w"
  proof (rule performs_and_then
           [OF performs_inner_users_loop [OF Cons.prems(1) Cons.prems(2) Cons.prems(3) Cons.prems(4) Cons.prems(5)]])
    fix self1 and w1 :: "'db world"
    assume ss: "same_setup self self1" and d1: "dbstate w1 = dbstate w" and l1: "live w1 = live w"
    have a1: "admin_connection self1 None = Inr obj"
      using Cons.prems(1) by (simp add: admin_connection_same_setup [OF ss])
    have db: "database self1 = database self" using ss by (simp add: same_setup_def)
    have a2: "admin_connection self1 (Some (database self1)) = Inr obj2"
      using Cons.prems(2) by (simp add: admin_connection_same_setup [OF ss] db)
    have keys: "fst ` set (db_configs self1) = fst ` set (db_configs self)"
      using ss by (metis same_setup_def set_map)
    have u1: "\<forall>u \<in> set users. u \<in> fst ` set (db_configs self1) \<and> u \<noteq> admin_user
                \<and> already_provisioned D self1 (dbstate w1) (connect_kwargs obj) (connect_kwargs obj2) u"
      using Cons.prems(5) by (simp add: keys d1 already_provisioned_same_setup [OF ss])
    have "performs (same_setup self1) (concat (map (\<lambda>_. concat (map (user_statements self1) users)) us))
            (outer_users_loop D pw users us self1) w1"
      using Cons.prems(3) Cons.prems(4) by (intro Cons.IH [OF a1 a2 _ _ u1]) (simp_all add: d1)
    then have "performs (same_setup self1) (concat (map (\<lambda>_. concat (map (user_statements self) users)) us))
            (outer_users_loop D pw users us self1) w1"
      by (simp add: user_statements_same_setup [OF ss])
    then show "performs (same_setup self) (concat (map (\<lambda>_. concat (map (user_statements self) users)) us))
            (outer_users_loop D pw users us self1) w1"
      by (rule performs_weaken) (rule same_setup_trans [OF ss])
  qed
  then show ?case by (simp add: outer_users_loop_seq)
qed


lemma user_statements_no_create_user: "(q, ok) \<in> set (user_statements self u) \<Longrightarrow> \<not> is_create_user q"
  by (auto simp: user_statements_def stmt_role_exists_def stmt_grant_connect_def
        stmt_grant_usage_def stmt_grant_select_def)

lemma on_successI:
  "(\<And>w x w'. m w = (Inr x, w') \<Longrightarrow>
      Q x \<and> (\<exists>evs. trace w' = trace w @ evs \<and> set sts \<subseteq> set (statements evs)))
   \<Longrightarrow> on_success Q sts m"
  unfolding on_success_def by blast

lemma on_successD:
  "on_success Q sts m \<Longrightarrow> m w = (Inr x, w') \<Longrightarrow>
   Q x \<and> (\<exists>evs. trace w' = trace w @ evs \<and> set sts \<subseteq> set (statements evs))"
  unfolding on_success_def by blast

lemma and_then_Inr:
  "and_then m f w = (Inr y, w') \<Longrightarrow> \<exists>x w1. m w = (Inr x, w1) \<and> f x w1 = (Inr y, w')"

proof -
  assume a: "and_then m f w = (Inr y, w')"
  obtain r w1 where mw: "m w = (r, w1)" by (metis surj_pair)
  show ?thesis
  proof (cases r)
    case (Inl e)
    with a mw show ?thesis by (simp add: and_then_def)
  next
    case (Inr x)
    with a mw show ?thesis by (simp add: and_then_def)
  qed

qed

lemma os_and_then:
  assumes m: "on_success Q1 a m" and f: "\<And>x. Q1 x \<Longrightarrow> on_success Q2 b (f x)"
  shows "on_success Q2 (a @ b) (and_then m f)"

proof (rule on_successI)
  fix w y w'
  assume "and_then m f w = (Inr y, w')"
  from and_then_Inr [OF this]
  obtain x w1 where mw: "m w = (Inr x, w1)" and fw: "f x w1 = (Inr y, w')" by blast
  from on_successD [OF m mw] obtain e1 where q1: "Q1 x" and t1: "trace w1 = trace w @ e1"
    and s1: "set a \<subseteq> set (statements e1)" by blast
  from on_successD [OF f [OF q1] fw] obtain e2 where q2: "Q2 y" and t2: "trace w' = trace w1 @ e2"
    and s2: "set b \<subseteq> set (statements e2)" by blast
  have "trace w' = trace w @ (e1 @ e2)" using t1 t2 by simp
  moreover have "set (a @ b) \<subseteq> set (statements (e1 @ e2))"
    using s1 s2 by (auto simp: statements_append)
  ultimately show "Q2 y \<and> (\<exists>evs. trace w' = trace w @ evs \<and> set (a @ b) \<subseteq> set (statements evs))"
    using q2 by blast

qed

lemma os_returning: "(\<And>x. r = Inr x \<Longrightarrow> Q x) \<Longrightarrow> on_success Q [] (returning r)"
  by (rule on_successI) (simp add: returning_def)

lemma os_returning_any: "on_success (\<lambda>_. True) [] (returning r)"
  by (rule os_returning) simp

lemma os_cur_execute: "on_success (\<lambda>_. True) [(q, True)] (cur_execute D h q)"

proof (rule on_successI)
  fix w x w'
  assume "cur_execute D h q w = (Inr x, w')"
  then have "trace w' = trace w @ [Execute h q True]"
    by (auto simp: cur_execute_def split: option.splits)
  moreover have "set [(q, True)] \<subseteq> set (statements [Execute h q True])" by simp
  ultimately show "True \<and> (\<exists>evs. trace w' = trace w @ evs \<and> set [(q, True)] \<subseteq> set (statements evs))"
    by blast

qed

lemma os_weaken: "on_success Q a m \<Longrightarrow> set b \<subseteq> set a \<Longrightarrow> on_success Q b m"
  unfolding on_success_def by (meson subset_trans)

lemma os_with_connection:
  assumes body: "\<And>h. on_success Q sts (m h)"
  shows "on_success (\<lambda>_. True) sts (with_connection D obj (\<lambda>h w'. no_locals (m h w')))"

proof (rule on_successI)
  fix w x w'
  assume run: "with_connection D obj (\<lambda>h w'. no_locals (m h w')) w = (Inr x, w')"
  show "True \<and> (\<exists>evs. trace w' = trace w @ evs \<and> set sts \<subseteq> set (statements evs))"
  proof (cases "accepts D (dbstate w) (connect_kwargs obj)")
    case False
    with run show ?thesis by (simp add: with_connection_refused)
  next
    case True
    let ?h = "new_handle w" and ?ci = "connect_kwargs obj"
    obtain r w2 where mw: "m ?h (opened w ?ci) = (r, w2)" by (metis surj_pair)
    show ?thesis
    proof (cases r)
      case (Inl e)
      with run mw show ?thesis by (simp add: with_connection_accepted [OF True] no_locals_def)
    next
      case (Inr v)
      with run mw have w': "w' = conn_close ?h w2"
        by (simp add: with_connection_accepted [OF True] no_locals_def)
      from on_successD [OF body] mw Inr obtain evs where t: "trace w2 = trace (opened w ?ci) @ evs"
        and s: "set sts \<subseteq> set (statements evs)" by blast
      have "trace w' = trace w @ (Connect ?h ?ci # evs @ [Close ?h])"
        using t by (simp add: w' conn_close_def opened_def)
      moreover have "set sts \<subseteq> set (statements (Connect ?h ?ci # evs @ [Close ?h]))"
        using s by (simp add: statements_append)
      ultimately show ?thesis by blast
    qed
  qed

qed

lemma os_grant_select_loop:
  "on_success (\<lambda>_. True) (map (\<lambda>t. (stmt_grant_select t u, True)) ts) (grant_select_loop D h u ts)"

proof (induction ts)
  case Nil
  show ?case by (simp add: grant_select_loop_Nil os_returning_any)

next
  case (Cons t ts)
  have "on_success (\<lambda>_. True) ([(stmt_grant_select t u, True)] @ map (\<lambda>t. (stmt_grant_select t u, True)) ts)
          (and_then (cur_execute D h (stmt_grant_select t u)) (\<lambda>_. grant_select_loop D h u ts))"
    by (rule os_and_then [OF os_cur_execute Cons.IH])
  then show ?case by (simp add: grant_select_loop_seq)

qed

lemma os_grant_schema_body:
  "on_success (\<lambda>_. True) ((stmt_grant_usage u, True)
               # map (\<lambda>t. (stmt_grant_select t u, True)) (read_only_tables (db_structure self)))
     (grant_schema_body D self u h)"

proof -
  have "on_success (\<lambda>_. True) ([(stmt_grant_usage u, True)]
               @ map (\<lambda>t. (stmt_grant_select t u, True)) (read_only_tables (db_structure self)))
     (and_then (cur_execute D h (stmt_grant_usage u))
        (\<lambda>_. grant_select_loop D h u (read_only_tables (db_structure self))))"
    by (rule os_and_then [OF os_cur_execute os_grant_select_loop])
  then show ?thesis by (simp add: grant_schema_body_seq)

qed

lemma os_provision_body:
  "on_success (\<lambda>_. True) (user_grants (database self) (read_only_tables (db_structure self)) u)
     (provision_body D self pw u h)"

proof -
  let ?schema = "(stmt_grant_usage u, True)
                 # map (\<lambda>t. (stmt_grant_select t u, True)) (read_only_tables (db_structure self))"
  have inner: "\<And>obj2. on_success (\<lambda>_. True) (?schema @ [])
                 (and_then (with_connection D obj2 (\<lambda>h2 w'. no_locals (grant_schema_body D self u h2 w')))
                    (\<lambda>_. returning (Inr ())))"
    by (rule os_and_then [OF os_with_connection [where m = "grant_schema_body D self u"] os_returning_any])
       (rule os_grant_schema_body)
  have "on_success (\<lambda>_. True)
          ([] @ [] @ [] @ [(stmt_grant_connect (database self) u, True)] @ [] @ ?schema @ [])
          (provision_body D self pw u h)"
    unfolding provision_body_seq
    by (intro os_and_then [where ?Q1.0 = "\<lambda>_. True"] os_returning_any inner
          os_weaken [OF os_cur_execute [of _ D h]] os_cur_execute)
       simp_all
  then show ?thesis by (simp add: user_grants_def)

qed

lemma set_password_same_tables: "set_password u p self = Inr self' \<Longrightarrow> same_tables self self'"
  by (auto simp: set_password_def same_tables_def split: option.splits)

lemma os_provision_user:
  "on_success (same_tables self) (user_grants (database self) (read_only_tables (db_structure self)) u)
     (provision_user D pw u self)"

proof -
  let ?g = "user_grants (database self) (read_only_tables (db_structure self)) u"
  have inner: "\<And>obj. on_success (same_tables self) (?g @ [])
                 (and_then (with_connection D obj (\<lambda>conn w'. no_locals (provision_body D self pw u conn w')))
                    (\<lambda>_. returning (set_password u (derived_password u pw) self)))"
    by (rule os_and_then [OF os_with_connection [where m = "provision_body D self pw u"]])
       (rule os_provision_body, rule os_returning, rule set_password_same_tables)
  have "on_success (same_tables self) ([] @ ?g @ []) (provision_user D pw u self)"
    unfolding provision_user_seq
    by (rule os_and_then [OF os_returning_any]) (rule inner)
  then show ?thesis by simp

qed

lemma same_tables_trans: "same_tables a b \<Longrightarrow> same_tables b c \<Longrightarrow> same_tables a c"
  by (simp add: same_tables_def)

lemma os_strengthen: "on_success Q sts m \<Longrightarrow> (\<And>x. Q x \<Longrightarrow> Q' x) \<Longrightarrow> on_success Q' sts m"
  unfolding on_success_def by blast

lemma os_inner_users_loop:
  "on_success (same_tables self)
     (concat (map (user_grants (database self) (read_only_tables (db_structure self))) us))
     (inner_users_loop D pw us self)"

proof (induction us arbitrary: self)
  case Nil
  show ?case
    by (simp add: inner_users_loop_Nil) (rule os_returning, simp add: same_tables_def)

next
  case (Cons u us)
  let ?g = "user_grants (database self) (read_only_tables (db_structure self))"
  have "on_success (same_tables self) (?g u @ concat (map ?g us))
          (and_then (provision_user D pw u self) (\<lambda>self1. inner_users_loop D pw us self1))"
  proof (rule os_and_then [OF os_provision_user])
    fix self1 assume ss: "same_tables self self1"
    have "on_success (same_tables self1)
            (concat (map (user_grants (database self1) (read_only_tables (db_structure self1))) us))
            (inner_users_loop D pw us self1)" by (rule Cons.IH)
    then have "on_success (same_tables self1) (concat (map ?g us)) (inner_users_loop D pw us self1)"
      using ss by (simp add: same_tables_def)
    then show "on_success (same_tables self) (concat (map ?g us)) (inner_users_loop D pw us self1)"
      by (rule os_strengthen) (rule same_tables_trans [OF ss])
  qed
  then show ?case by (simp add: inner_users_loop_seq)

qed

lemma os_outer_users_loop:
  "us \<noteq> [] \<Longrightarrow>
   on_success (same_tables self)
     (concat (map (user_grants (database self) (read_only_tables (db_structure self))) users))
     (outer_users_loop D pw users us self)"

proof (induction us arbitrary: self)
  case Nil
  then show ?case by simp

next
  case (Cons u us)
  let ?g = "user_grants (database self) (read_only_tables (db_structure self))"
  have rest: "\<And>self1. same_tables self self1 \<Longrightarrow>
                on_success (same_tables self) [] (outer_users_loop D pw users us self1)"
  proof -
    fix self1 assume ss: "same_tables self self1"
    show "on_success (same_tables self) [] (outer_users_loop D pw users us self1)"
    proof (cases "us = []")
      case True
      have "on_success (same_tables self) [] (returning (Inr self1))"
        by (rule os_returning) (simp add: ss)
      with True show ?thesis by (simp add: outer_users_loop_Nil)
    next
      case False
      from Cons.IH [OF False, of self1]
      have "on_success (same_tables self1) [] (outer_users_loop D pw users us self1)"
        by (rule os_weaken) simp
      then show ?thesis by (rule os_strengthen) (rule same_tables_trans [OF ss])
    qed
  qed
  have "on_success (same_tables self) (concat (map ?g users) @ [])
          (and_then (inner_users_loop D pw users self) (\<lambda>self1. outer_users_loop D pw users us self1))"
    by (rule os_and_then [OF os_inner_users_loop]) (rule rest)
  then show ?case by (simp add: outer_users_loop_seq)

qed

lemma grants_of_every_run:
  assumes run: "create_read_only_users D admin_password self w = (Inr self', w')"
      and u: "user \<in> set (non_admin_users self)"
  shows "set (user_grants (database self) (read_only_tables (db_structure self)) user)
           \<subseteq> set (statements (new_events w w'))"

proof -
  let ?users = "non_admin_users self"
  from u have ne: "?users \<noteq> []" by auto
  from run have o: "outer_users_loop D admin_password ?users ?users self w = (Inr self', w')"
    by (simp add: create_read_only_users_def non_admin_users_def Let_def)
  from on_successD [OF os_outer_users_loop [OF ne] o]
  obtain evs where t: "trace w' = trace w @ evs"
    and s: "set (concat (map (user_grants (database self) (read_only_tables (db_structure self))) ?users))
              \<subseteq> set (statements evs)" by blast
  from t have "new_events w w' = evs" by (simp add: new_events_def)
  with s u show ?thesis by auto

qed

text \<open>
  C6.  Let every non-admin role be already provisioned in the server state the run
  starts in, as it is after an earlier run.  Then \<open>create_read_only_users\<close> returns
  without raising and sends no \<open>CREATE USER\<close>: for each pass of its loops it sends the
  catalog query (twice) and then \<open>GRANT CONNECT\<close>, \<open>GRANT USAGE ON SCHEMA\<close> and one
  \<open>GRANT SELECT\<close> per read-only table, all of them accepted.  The server state after
  the run, privileges included, is the state before it, and no connection stays open.
  And whatever state a run starts in: if it returns, it has sent all these grants with
  success for every non-admin role.
\<close>

theorem provisioning_again_changes_nothing:
  assumes admin: "admin_connection self None = Inr obj"
      and admin2: "admin_connection self (Some (database self)) = Inr obj2"
      and acc: "accepts D (dbstate w) (connect_kwargs obj)"
      and acc2: "accepts D (dbstate w) (connect_kwargs obj2)"
      and prov: "list_all (already_provisioned D self (dbstate w) (connect_kwargs obj) (connect_kwargs obj2))
                   (non_admin_users self)"
      and run: "create_read_only_users D admin_password self w = (r, w')"
  shows "(\<exists>self'. r = Inr self') \<and> dbstate w' = dbstate w \<and> live w' = live w
       \<and> statements (new_events w w')
           = concat (map (\<lambda>_. concat (map (user_statements self) (non_admin_users self)))
                       (non_admin_users self))
       \<and> \<not> list_ex (\<lambda>p. is_create_user (fst p)) (statements (new_events w w'))
       \<and> list_all (\<lambda>user.
             (stmt_grant_connect (database self) user, True) \<in> set (statements (new_events w w'))
             \<and> (stmt_grant_usage user, True) \<in> set (statements (new_events w w'))
             \<and> list_all (\<lambda>table. (stmt_grant_select table user, True)
                                      \<in> set (statements (new_events w w')))
                  (read_only_tables (db_structure self)))
           (non_admin_users self)
       \<and> (\<forall>w0 self0 w0'. create_read_only_users D admin_password self w0 = (Inr self0, w0') \<longrightarrow>
             list_all (\<lambda>user.
                 set (user_grants (database self) (read_only_tables (db_structure self)) user)
                   \<subseteq> set (statements (new_events w0 w0')))
               (non_admin_users self))"
proof -
  let ?users = "non_admin_users self"
  let ?sts = "concat (map (\<lambda>_. concat (map (user_statements self) ?users)) ?users)"
  have every: "\<forall>w0 self0 w0'. create_read_only_users D admin_password self w0 = (Inr self0, w0') \<longrightarrow>
             list_all (\<lambda>user.
                 set (user_grants (database self) (read_only_tables (db_structure self)) user)
                   \<subseteq> set (statements (new_events w0 w0')))
               (non_admin_users self)"
    unfolding list_all_iff using grants_of_every_run by blast
  have users: "\<forall>u \<in> set ?users. u \<in> fst ` set (db_configs self) \<and> u \<noteq> admin_user
                 \<and> already_provisioned D self (dbstate w) (connect_kwargs obj) (connect_kwargs obj2) u"
    using prov by (auto simp: non_admin_users_def admin_user_def list_all_iff)
  have "performs (same_setup self) ?sts (outer_users_loop D admin_password ?users ?users self) w"
    by (rule performs_outer_users_loop [OF admin admin2 acc acc2 users])
  then obtain self' w2 evs where
    o: "outer_users_loop D admin_password ?users ?users self w = (Inr self', w2)"
    and d: "dbstate w2 = dbstate w" and l: "live w2 = live w"
    and t: "trace w2 = trace w @ evs" and s: "statements evs = ?sts"
    by (rule performsE)
  from o run have r: "r = Inr self'" and w': "w' = w2"
    by (simp_all add: create_read_only_users_def non_admin_users_def)
  have ne: "new_events w w' = evs" using t w' by (simp add: new_events_def)
  have sts: "statements (new_events w w') = ?sts" using ne s by simp
  have nocreate: "\<not> list_ex (\<lambda>p. is_create_user (fst p)) ?sts"
  proof
    assume "list_ex (\<lambda>p. is_create_user (fst p)) ?sts"
    then obtain p where p: "p \<in> set ?sts" and c: "is_create_user (fst p)"
      unfolding list_ex_iff by blast
    from p obtain u where "p \<in> set (user_statements self u)" by (auto split: if_splits)
    then have "(fst p, snd p) \<in> set (user_statements self u)" by simp
    then have "\<not> is_create_user (fst p)" by (rule user_statements_no_create_user)
    with c show False by simp
  qed
  have grants: "list_all (\<lambda>user.
             (stmt_grant_connect (database self) user, True) \<in> set ?sts
             \<and> (stmt_grant_usage user, True) \<in> set ?sts
             \<and> list_all (\<lambda>table. (stmt_grant_select table user, True) \<in> set ?sts)
                  (read_only_tables (db_structure self))) ?users"
    unfolding list_all_iff
  proof (intro ballI conjI)
    fix u assume u: "u \<in> set ?users"
    then have sub: "set (user_statements self u) \<subseteq> set ?sts" by auto
    show "(stmt_grant_connect (database self) u, True) \<in> set ?sts"
      using sub by (auto simp: user_statements_def)
    show "(stmt_grant_usage u, True) \<in> set ?sts"
      using sub by (auto simp: user_statements_def)
    fix t assume "t \<in> set (read_only_tables (db_structure self))"
    then show "(stmt_grant_select t u, True) \<in> set ?sts"
      using sub by (auto simp: user_statements_def)
  qed
  from r d l sts nocreate grants w' have "(\<exists>self'. r = Inr self') \<and> dbstate w' = dbstate w \<and> live w' = live w"
    by simp
  with sts nocreate grants every show ?thesis by simp
qed

text \<open>On the small server: a first run creates the role and grants, and the run after it
  leaves roles and privileges as the first run left them.\<close>

theorem provisioning_again_changes_nothing_witness:
  "pg_roles (dbstate (snd (create_read_only_users pg (Some ''secret'') demo_sql (world0 pg_ready))))
     = [''postgres'', ''reader'']
   \<and> dbstate (snd (create_read_only_users pg (Some ''secret'') demo_sql
               (snd (create_read_only_users pg (Some ''secret'') demo_sql (world0 pg_ready)))))
     = dbstate (snd (create_read_only_users pg (Some ''secret'') demo_sql (world0 pg_ready)))"
proof -
  let ?w1 = "snd (create_read_only_users pg (Some ''secret'') demo_sql (world0 pg_ready))"
  let ?again = "create_read_only_users pg (Some ''secret'') demo_sql ?w1"
  have admin: "admin_connection demo_sql None = Inr demo_connection" by code_simp
  have admin2: "admin_connection demo_sql (Some (database demo_sql)) = Inr demo_connection_db"
    by code_simp
  have acc: "accepts pg (dbstate ?w1) (connect_kwargs demo_connection)" by code_simp
  have acc2: "accepts pg (dbstate ?w1) (connect_kwargs demo_connection_db)" by code_simp
  have prov: "list_all (already_provisioned pg demo_sql (dbstate ?w1) (connect_kwargs demo_connection)
                (connect_kwargs demo_connection_db)) (non_admin_users demo_sql)" by code_simp
  have run: "?again = (fst ?again, snd ?again)" by simp
  have first: "pg_roles (dbstate ?w1) = [''postgres'', ''reader'']" by code_simp
  from provisioning_again_changes_nothing [OF admin admin2 acc acc2 prov run] first
  show ?thesis by simp
qed

section \<open>generate_sql_row_insert\<close>

lemma prepend_Inr [simp]: "prepend s (Inr t) = Inr (s @ t)"
  by (simp add: prepend_def)

lemma prepend_prepend [simp]: "prepend s (prepend t r) = prepend (s @ t) r"
  by (cases r) (simp_all add: prepend_def)

lemma prepend_Nil [simp]: "prepend [] r = r"
  by (cases r) (simp_all add: prepend_def)

lemma scan_plain:
  "brace_free s \<Longrightarrow> format_scan kw None (s @ rest) = prepend s (format_scan kw None rest)"
  by (induction s) (simp_all add: brace_free_def)

lemma scan_field:
  "list_all (\<lambda>c. \<not> field_special c \<and> c \<noteq> CHR ''}'') n \<Longrightarrow>
   format_scan kw (Some acc) (n @ CHR ''}'' # rest)
     = (case lookup_field kw (acc @ n) of
          Inl e \<Rightarrow> Inl e
        | Inr v \<Rightarrow> prepend v (format_scan kw None rest))"
  by (induction n arbitrary: acc) simp_all

lemma scan_placeholder:
  assumes plain: "plain_name n" and v: "map_of kw n = Some v"
  shows "format_scan kw None (''{'' @ n @ ''}'' @ rest) = prepend v (format_scan kw None rest)"
proof -
  from plain obtain c cs where n: "n = c # cs" by (cases n) (auto simp: plain_name_def)
  from plain n have c: "c \<noteq> CHR ''{''" by (auto simp: plain_name_def field_special_def)
  from plain have chars: "list_all (\<lambda>c. \<not> field_special c \<and> c \<noteq> CHR ''}'') n"
    by (simp add: plain_name_def)
  from plain v have look: "lookup_field kw n = Inr v" by (simp add: lookup_field_def plain_name_def)
  have "format_scan kw None (''{'' @ n @ ''}'' @ rest) = format_scan kw (Some []) (n @ CHR ''}'' # rest)"
    using c unfolding n by simp
  also have "\<dots> = prepend v (format_scan kw None rest)"
    using scan_field [OF chars, of kw "[]" rest] look by simp
  finally show ?thesis .
qed

lemma scan_placeholders:
  assumes "list_all plain_name (map fst r)"
      and "\<forall>p \<in> set r. map_of kw (fst p) = Some (row_value (snd p))"
  shows "format_scan kw None (py_join '', '' (map (\<lambda>col. ''{'' @ col @ ''}'') (map fst r)) @ rest)
           = prepend (py_join '', '' (map (\<lambda>p. row_value (snd p)) r)) (format_scan kw None rest)"
  using assms
proof (induction r rule: induct_list012)
  case 1
  show ?case by simp
next
  case (2 p)
  then show ?case using scan_placeholder [of "fst p" kw "row_value (snd p)" rest] by simp
next
  case (3 p q r)
  have sep: "brace_free '', ''" by (simp add: brace_free_def)
  from 3 have ih: "format_scan kw None
            (py_join '', '' (map (\<lambda>col. ''{'' @ col @ ''}'') (map fst (q # r))) @ rest)
           = prepend (py_join '', '' (map (\<lambda>p. row_value (snd p)) (q # r))) (format_scan kw None rest)"
    by simp
  from 3 have p: "plain_name (fst p)" "map_of kw (fst p) = Some (row_value (snd p))" by simp_all
  have "format_scan kw None
          (py_join '', '' (map (\<lambda>col. ''{'' @ col @ ''}'') (map fst (p # q # r))) @ rest)
        = format_scan kw None (''{'' @ fst p @ ''}'' @ ('', '' @
            (py_join '', '' (map (\<lambda>col. ''{'' @ col @ ''}'') (map fst (q # r))) @ rest)))"
    by simp
  also have "\<dots> = prepend (row_value (snd p)) (format_scan kw None ('', '' @
            (py_join '', '' (map (\<lambda>col. ''{'' @ col @ ''}'') (map fst (q # r))) @ rest)))"
    by (rule scan_placeholder [OF p])
  also have "\<dots> = prepend (row_value (snd p)) (prepend '', '' (format_scan kw None
            (py_join '', '' (map (\<lambda>col. ''{'' @ col @ ''}'') (map fst (q # r))) @ rest)))"
    by (simp only: scan_plain [OF sep])
  also have "\<dots> = prepend (py_join '', '' (map (\<lambda>p. row_value (snd p)) (p # q # r)))
                      (format_scan kw None rest)"
    by (simp only: ih) simp
  finally show ?case .
qed

lemma brace_free_append [simp]: "brace_free (a @ b) = (brace_free a \<and> brace_free b)"
  by (simp add: brace_free_def)

lemma plain_name_brace_free: "plain_name n \<Longrightarrow> brace_free n"
  by (auto simp: plain_name_def brace_free_def field_special_def list_all_iff)

lemma brace_free_join: "list_all plain_name cols \<Longrightarrow> brace_free (py_join '', '' cols)"
proof (induction cols rule: induct_list012)
  case 1
  show ?case by (simp add: brace_free_def)
next
  case (2 x)
  then show ?case by (simp add: plain_name_brace_free)
next
  case (3 x y zs)
  have sep: "brace_free '', ''" by (simp add: brace_free_def)
  from 3 have "brace_free x" and "brace_free (py_join '', '' (y # zs))"
    by (simp_all add: plain_name_brace_free)
  with sep have "brace_free (x @ '', '' @ py_join '', '' (y # zs))"
    by (simp only: brace_free_append simp_thms)
  then show ?case by simp
qed

lemma brace_free_insert_head:
  assumes "brace_free table" and "list_all plain_name cols"
  shows "brace_free (insert_head table cols)"
proof -
  have "brace_free (''INSERT INTO '' @ [nl, tab])" "brace_free '' (''"
    "brace_free ('')'' @ [nl] @ ''VALUES'' @ [nl, tab] @ ''('')"
    by (simp_all add: brace_free_def nl_def tab_def)
  with assms brace_free_join [OF assms(2)] show ?thesis
    unfolding insert_head_def by (simp only: brace_free_append simp_thms)
qed

lemma map_of_row_dict:
  "distinct (map fst r) \<Longrightarrow> p \<in> set r \<Longrightarrow>
   map_of (map (\<lambda>(col, v). (col, row_value v)) r) (fst p) = Some (row_value (snd p))"
proof -
  assume d: "distinct (map fst r)" and p: "p \<in> set r"
  have m: "map fst (map (\<lambda>(col, v). (col, row_value v)) r) = map fst r" by (induction r) auto
  have "(fst p, row_value (snd p)) \<in> set (map (\<lambda>(col, v). (col, row_value v)) r)"
    using p by force
  moreover have "distinct (map fst (map (\<lambda>(col, v). (col, row_value v)) r))"
    unfolding m by (rule d)
  ultimately show ?thesis by (rule map_of_is_SomeI [rotated])
qed

lemma generate_sql_row_insert_plain:
  assumes table: "brace_free table"
      and cols: "list_all plain_name (map fst data_series)"
      and dist: "distinct (map fst data_series)"
  shows "generate_sql_row_insert table data_series = Inr (insert_statement table data_series)"
proof -
  let ?kw = "map (\<lambda>(col, v). (col, row_value v)) data_series"
  let ?cols = "map fst data_series"
  have head: "brace_free (insert_head table ?cols)" by (rule brace_free_insert_head [OF table cols])
  have tail: "brace_free ('');'' @ [nl])" by (simp add: brace_free_def nl_def)
  have kw: "\<forall>p \<in> set data_series. map_of ?kw (fst p) = Some (row_value (snd p))"
    using map_of_row_dict [OF dist] by blast
  have template: "''INSERT INTO '' @ [nl, tab] @ table @ '' '' @ ''('' @ py_join '', '' ?cols @ '')''
                  @ [nl] @ ''VALUES'' @ [nl] @ [tab] @ ''(''
                  @ py_join '', '' (map (\<lambda>col. ''{'' @ col @ ''}'') ?cols) @ '');'' @ [nl]
                = insert_head table ?cols
                  @ (py_join '', '' (map (\<lambda>col. ''{'' @ col @ ''}'') ?cols) @ ('');'' @ [nl]))"
    by (simp add: insert_head_def)
  have "format_scan ?kw None (insert_head table ?cols
          @ (py_join '', '' (map (\<lambda>col. ''{'' @ col @ ''}'') ?cols) @ ('');'' @ [nl])))
        = prepend (insert_head table ?cols) (format_scan ?kw None
            (py_join '', '' (map (\<lambda>col. ''{'' @ col @ ''}'') ?cols) @ ('');'' @ [nl])))"
    by (rule scan_plain [OF head])
  also have "\<dots> = prepend (insert_head table ?cols)
                      (prepend (py_join '', '' (map (\<lambda>p. row_value (snd p)) data_series))
                         (format_scan ?kw None ('');'' @ [nl])))"
    by (simp only: scan_placeholders [OF cols kw])
  also have "format_scan ?kw None ('');'' @ [nl]) = Inr ('');'' @ [nl])"
    using scan_plain [OF tail, of ?kw "[]"] by simp
  finally have "format_scan ?kw None (insert_head table ?cols
          @ (py_join '', '' (map (\<lambda>col. ''{'' @ col @ ''}'') ?cols) @ ('');'' @ [nl])))
        = Inr (insert_statement table data_series)"
    by (simp add: insert_statement_def)
  then show ?thesis
    using dist
    by (simp add: generate_sql_row_insert_def Let_def py_format_def insert_head_def
          del: format_scan.simps)
qed


lemma strip_quotes_no_quote: "sq \<notin> set (strip_quotes s)"
  by (simp add: strip_quotes_def)

lemma strip_quotes_id: "sq \<notin> set s \<Longrightarrow> strip_quotes s = s"
  by (auto simp: strip_quotes_def filter_id_conv)







section \<open>The name of the database\<close>

lemma char_lower_upper_lower: "char_lower (char_upper (char_lower c)) = char_lower c"
proof -
  let ?n = "of_char c :: nat"
  have c: "char_of ?n = c" by simp
  consider (upper) "65 \<le> ?n \<and> ?n \<le> 90" | (lower) "97 \<le> ?n \<and> ?n \<le> 122"
    | (other) "\<not> (65 \<le> ?n \<and> ?n \<le> 90) \<and> \<not> (97 \<le> ?n \<and> ?n \<le> 122)" by blast
  then show ?thesis
  proof cases
    case upper
    then have l: "char_lower c = char_of (?n + 32)" by (simp add: char_lower_def Let_def)
    have "?n + 32 < 256" using upper by arith
    then have v: "(of_char (char_of (?n + 32) :: char) :: nat) = ?n + 32" by simp
    have r: "97 \<le> ?n + 32 \<and> ?n + 32 \<le> 122" using upper by arith
    have "char_upper (char_of (?n + 32)) = char_of (?n + 32 - 32)"
      by (simp only: char_upper_def Let_def v r if_True simp_thms)
    then have u: "char_upper (char_of (?n + 32)) = c" using c by simp
    show ?thesis by (simp only: l u)
  next
    case lower
    then have l: "char_lower c = c" by (simp add: char_lower_def Let_def)
    from lower have u: "char_upper c = char_of (?n - 32)" by (simp add: char_upper_def Let_def)
    have "?n - 32 < 256" using lower by arith
    then have v: "(of_char (char_of (?n - 32) :: char) :: nat) = ?n - 32" by simp
    have r: "65 \<le> ?n - 32 \<and> ?n - 32 \<le> 90" using lower by arith
    have "char_lower (char_of (?n - 32)) = char_of (?n - 32 + 32)"
      by (simp only: char_lower_def Let_def v r if_True simp_thms)
    also have "?n - 32 + 32 = ?n" using lower by arith
    also have "char_of ?n = c" by (rule c)
    finally show ?thesis by (simp only: l u)
  next
    case other
    then have l: "char_lower c = c" by (auto simp: char_lower_def Let_def)
    from other have u: "char_upper c = c" by (auto simp: char_upper_def Let_def)
    show ?thesis by (simp only: l u)
  qed
qed




end
